theory Spec2Isabelle
  imports Main "HOL-Library.Multiset" "HOL-Library.Sublist" "HOL-Library.Char_ord"
    "HOL-Library.List_Lexorder"
begin

section \<open>The wallet tracker of \<^verbatim>\<open>ton_track.py\<close>\<close>

text \<open>
  The program keeps two pieces of state in \<^verbatim>\<open>TONWalletTracker\<close>: \<^verbatim>\<open>last_lt\<close>, the
  watermark, and \<^verbatim>\<open>processed_hashes\<close>, the set of hashes already seen. Pages of
  transactions come from \<^verbatim>\<open>get_transactions_history\<close>; a page is reconciled against the
  state by the loop body of \<^verbatim>\<open>check_new_transactions\<close> and by \<^verbatim>\<open>check_single_update\<close>,
  whose bodies are the same text. Every Python exception the code can raise is a value
  of the model, and what the network returns is an input of it.
\<close>

subsection \<open>Python values and exceptions\<close>

text \<open>
  The exceptions the modelled code raises. All of them are subclasses of
  \<^verbatim>\<open>Exception\<close>, which is what the handlers of the program catch.
\<close>

datatype py_error =
  TypeError | ValueError | AttributeError | FormatError | ConnectionError | TimeoutError

text \<open>
  The JSON values the code reads under the keys \<^verbatim>\<open>hash\<close> and \<^verbatim>\<open>lt\<close>: \<^verbatim>\<open>null\<close>
  (Python \<^verbatim>\<open>None\<close>, also what \<^verbatim>\<open>dict.get\<close> returns for an absent key), an integer, or
  a string. The service sends both fields as strings. Floats, booleans, lists and
  nested objects under these two keys are outside the model.
\<close>

datatype jval = JNull | JInt int | JStr string

text \<open>Truth value of an object in a condition (\<^verbatim>\<open>if tx_hash\<close>, \<^verbatim>\<open>tx_lt and ...\<close>).\<close>

fun truthy :: "jval \<Rightarrow> bool" where
  "truthy JNull = False"
| "truthy (JInt n) = (n \<noteq> 0)"
| "truthy (JStr s) = (s \<noteq> [])"

text \<open>
  The builtin \<^verbatim>\<open>int\<close> on a string: surrounding ASCII whitespace is stripped, an optional
  sign follows, then decimal digits, where single underscores may separate digits.
  Strings are byte strings here, so only ASCII input is covered; the default limit of
  4300 digits of the interpreter is applied to the digit count.
\<close>

definition py_isspace :: "char \<Rightarrow> bool" where
  "py_isspace c = (c \<in> set [CHR 0x20, CHR 0x09, CHR 0x0A, CHR 0x0B, CHR 0x0C, CHR 0x0D])"

definition strip :: "string \<Rightarrow> string" where
  "strip s = rev (dropWhile py_isspace (rev (dropWhile py_isspace s)))"

definition digit_of :: "char \<Rightarrow> int option" where
  "digit_of c =
     (let n = (of_char c :: nat) in if 48 \<le> n \<and> n \<le> 57 then Some (int n - 48) else None)"

fun after_digit :: "int \<Rightarrow> string \<Rightarrow> int option" where
  "after_digit acc [] = Some acc"
| "after_digit acc [c] =
     (case digit_of c of None \<Rightarrow> None | Some v \<Rightarrow> Some (10 * acc + v))"
| "after_digit acc (c # d # cs) =
     (if c = CHR ''_''
      then (case digit_of d of None \<Rightarrow> None | Some v \<Rightarrow> after_digit (10 * acc + v) cs)
      else (case digit_of c of None \<Rightarrow> None | Some v \<Rightarrow> after_digit (10 * acc + v) (d # cs)))"

definition unsigned :: "string \<Rightarrow> int option" where
  "unsigned s =
     (case s of [] \<Rightarrow> None
      | c # cs \<Rightarrow> (case digit_of c of None \<Rightarrow> None | Some v \<Rightarrow> after_digit v cs))"

definition int_of_str :: "string \<Rightarrow> int option" where
  "int_of_str s =
     (let t = strip s in
      if length (filter (\<lambda>c. digit_of c \<noteq> None) t) > 4300 then None
      else (case t of [] \<Rightarrow> None
            | c # cs \<Rightarrow>
                if c = CHR ''-'' then map_option uminus (unsigned cs)
                else if c = CHR ''+'' then unsigned cs
                else unsigned t))"

text \<open>\<^verbatim>\<open>int(x)\<close>: \<^verbatim>\<open>TypeError\<close> on \<^verbatim>\<open>None\<close>, \<^verbatim>\<open>ValueError\<close> on a string that is no numeral.\<close>

fun py_int :: "jval \<Rightarrow> py_error + int" where
  "py_int JNull = Inl TypeError"
| "py_int (JInt n) = Inr n"
| "py_int (JStr s) = (case int_of_str s of None \<Rightarrow> Inl ValueError | Some n \<Rightarrow> Inr n)"

subsection \<open>Transactions\<close>

text \<open>
  A record of a fetched page is a dictionary. The tracker reads its key
  \<^verbatim>\<open>transaction_id\<close> with \<^verbatim>\<open>tx.get("transaction_id", {})\<close> and the keys \<^verbatim>\<open>hash\<close> and
  \<^verbatim>\<open>lt\<close> of that value with \<^verbatim>\<open>.get\<close>. \<open>TidAbsent\<close>: the record has no such key, and
  the default \<^verbatim>\<open>{}\<close> is read. \<open>TidObj h l\<close>: the value is a dictionary, \<open>h\<close> and \<open>l\<close>
  are what it holds under \<^verbatim>\<open>hash\<close> and \<^verbatim>\<open>lt\<close> (\<open>None\<close> when the key is absent).
  \<open>TidBad\<close>: the value is not a dictionary (\<^verbatim>\<open>null\<close>, a string, a number), so
  \<^verbatim>\<open>.get\<close> on it raises \<^verbatim>\<open>AttributeError\<close>.

  The other keys (\<^verbatim>\<open>utime\<close>, \<^verbatim>\<open>in_msg\<close>, \<^verbatim>\<open>out_msgs\<close>, \<^verbatim>\<open>total_fees\<close>) are read only by
  \<^verbatim>\<open>format_transaction\<close>, which converts them with \<^verbatim>\<open>int\<close>, \<^verbatim>\<open>datetime.fromtimestamp\<close>
  and float formatting. Of that function the model keeps whether it returns:
  \<open>displayable\<close> is false when one of these conversions raises.
\<close>

datatype tid = TidAbsent | TidObj "jval option" "jval option" | TidBad

record tx =
  transaction_id :: tid
  displayable :: bool

text \<open>\<^verbatim>\<open>tx.get("transaction_id", {}).get("hash")\<close>\<close>

definition get_hash :: "tx \<Rightarrow> py_error + jval" where
  "get_hash t =
     (case transaction_id t of
        TidAbsent \<Rightarrow> Inr JNull
      | TidObj h l \<Rightarrow> Inr (case h of None \<Rightarrow> JNull | Some v \<Rightarrow> v)
      | TidBad \<Rightarrow> Inl AttributeError)"

text \<open>\<^verbatim>\<open>tx.get("transaction_id", {}).get("lt")\<close>\<close>

definition get_lt :: "tx \<Rightarrow> py_error + jval" where
  "get_lt t =
     (case transaction_id t of
        TidAbsent \<Rightarrow> Inr JNull
      | TidObj h l \<Rightarrow> Inr (case l of None \<Rightarrow> JNull | Some v \<Rightarrow> v)
      | TidBad \<Rightarrow> Inl AttributeError)"

text \<open>\<^verbatim>\<open>tx.get("transaction_id", {}).get("lt", 0)\<close>: an absent key reads as \<^verbatim>\<open>0\<close>, a \<^verbatim>\<open>null\<close> stays.\<close>

definition get_lt_or_0 :: "tx \<Rightarrow> py_error + jval" where
  "get_lt_or_0 t =
     (case transaction_id t of
        TidAbsent \<Rightarrow> Inr (JInt 0)
      | TidObj h l \<Rightarrow> Inr (case l of None \<Rightarrow> JInt 0 | Some v \<Rightarrow> v)
      | TidBad \<Rightarrow> Inl AttributeError)"

text \<open>The sort key of line 124: \<^verbatim>\<open>int(x.get("transaction_id", {}).get("lt", 0))\<close>.\<close>

definition lt_key :: "tx \<Rightarrow> py_error + int" where
  "lt_key t = (case get_lt_or_0 t of Inl e \<Rightarrow> Inl e | Inr v \<Rightarrow> py_int v)"

text \<open>\<^verbatim>\<open>format_transaction(tx)\<close>, reduced to whether it returns.\<close>

definition format_transaction :: "tx \<Rightarrow> py_error + unit" where
  "format_transaction t = (if displayable t then Inr () else Inl FormatError)"

subsection \<open>The tracker state\<close>

text \<open>
  \<^verbatim>\<open>self.last_lt\<close> holds \<^verbatim>\<open>None\<close> (\<open>JNull\<close>) or the raw \<^verbatim>\<open>lt\<close> value of a record, converted
  with \<^verbatim>\<open>int\<close> at every comparison; \<^verbatim>\<open>self.processed_hashes\<close> is a Python set.
\<close>

record tracker =
  last_lt :: jval
  processed_hashes :: "jval set"

text \<open>\<^verbatim>\<open>__init__\<close>\<close>

definition init :: tracker where
  "init = \<lparr>last_lt = JNull, processed_hashes = {}\<rparr>"

subsection \<open>Sequencing and handlers\<close>

text \<open>
  What a piece of code leaves behind: the tracker after it, the transactions it printed
  (each as \<^verbatim>\<open>NEW TRANSACTION DETECTED\<close> followed by its formatted text), and the exception
  that leaves it, if any. In-place mutation done before an exception stays in \<open>state\<close>.
\<close>

record outcome =
  state :: tracker
  delivered :: "tx list"
  raised :: "py_error option"

definition returns :: "tracker \<Rightarrow> outcome" where
  "returns s = \<lparr>state = s, delivered = [], raised = None\<rparr>"

definition raises :: "tracker \<Rightarrow> py_error \<Rightarrow> outcome" where
  "raises s e = \<lparr>state = s, delivered = [], raised = Some e\<rparr>"

text \<open>Statement sequencing: an exception of the first part skips the second.\<close>

definition then_do :: "outcome \<Rightarrow> (tracker \<Rightarrow> outcome) \<Rightarrow> outcome" where
  "then_do a f =
     (case raised a of
        Some e \<Rightarrow> a
      | None \<Rightarrow>
          (let b = f (state a)
           in \<lparr>state = state b, delivered = delivered a @ delivered b, raised = raised b\<rparr>))"

text \<open>
  \<^verbatim>\<open>try: ... except Exception as e: print(...)\<close>: the exception is printed and dropped.
  Every constructor of \<open>py_error\<close> is an \<^verbatim>\<open>Exception\<close>.
\<close>

definition except_Exception :: "outcome \<Rightarrow> outcome" where
  "except_Exception a = a\<lparr>raised := None\<rparr>"

subsection \<open>Fetching a page\<close>

text \<open>
  What the HTTP request of \<^verbatim>\<open>get_transactions_history\<close> does, as an input of the model.
  \<open>RequestException\<close>: \<^verbatim>\<open>requests.get\<close>, \<^verbatim>\<open>raise_for_status\<close> or \<^verbatim>\<open>response.json\<close>
  raises a \<^verbatim>\<open>requests.RequestException\<close>. \<open>Raises e\<close>: another exception leaves the
  \<^verbatim>\<open>try\<close> block (a body that decodes to something other than an object, a decoding
  error of a \<^verbatim>\<open>requests\<close> version that raises a plain \<^verbatim>\<open>ValueError\<close>).
  \<open>ApiError\<close>: the field \<^verbatim>\<open>ok\<close> is false. \<open>ApiResult page\<close>: \<^verbatim>\<open>ok\<close> is true and
  \<^verbatim>\<open>result\<close> holds the list \<open>page\<close> (the empty list when the key is absent). The
  \<^verbatim>\<open>limit\<close> is a request parameter: the length of the page is the service's choice.
\<close>

datatype response = RequestException | Raises py_error | ApiError | ApiResult "tx list"

definition get_transactions_history :: "response \<Rightarrow> py_error + tx list" where
  "get_transactions_history r =
     (case r of
        RequestException \<Rightarrow> Inr []
      | Raises e \<Rightarrow> Inl e
      | ApiError \<Rightarrow> Inr []
      | ApiResult page \<Rightarrow> Inr page)"

subsection \<open>Reconciling a page\<close>

text \<open>
  The condition of lines 117-118 and 216-217, evaluated left to right with Python's
  short-circuit: \<^verbatim>\<open>tx_hash and tx_hash not in self.processed_hashes and
  (self.last_lt is None or int(tx_lt) > int(self.last_lt))\<close>.
\<close>

definition is_new :: "tracker \<Rightarrow> jval \<Rightarrow> jval \<Rightarrow> py_error + bool" where
  "is_new s tx_hash tx_lt =
     (if \<not> truthy tx_hash then Inr False
      else if tx_hash \<in> processed_hashes s then Inr False
      else if last_lt s = JNull then Inr True
      else (case py_int tx_lt of
              Inl e \<Rightarrow> Inl e
            | Inr a \<Rightarrow> (case py_int (last_lt s) of Inl e \<Rightarrow> Inl e | Inr b \<Rightarrow> Inr (a > b))))"

text \<open>
  The \<^verbatim>\<open>for tx in transactions\<close> loop of lines 112-120 and 212-219. The result list is
  \<^verbatim>\<open>new_transactions\<close>; the hash of a record is added to \<^verbatim>\<open>processed_hashes\<close> when the
  record is appended, so the additions made before an exception remain in the state.
\<close>

fun classify :: "tracker \<Rightarrow> tx list \<Rightarrow> tracker \<times> (py_error + tx list)" where
  "classify s [] = (s, Inr [])"
| "classify s (t # ts) =
     (case get_hash t of
        Inl e \<Rightarrow> (s, Inl e)
      | Inr h \<Rightarrow>
          (case get_lt t of
             Inl e \<Rightarrow> (s, Inl e)
           | Inr l \<Rightarrow>
               (case is_new s h l of
                  Inl e \<Rightarrow> (s, Inl e)
                | Inr b \<Rightarrow>
                    if b
                    then (case classify (s\<lparr>processed_hashes := insert h (processed_hashes s)\<rparr>) ts of
                            (s', r) \<Rightarrow> (s', map_sum id ((#) t) r))
                    else classify s ts)))"

text \<open>
  \<^verbatim>\<open>new_transactions.sort(key=...)\<close>: the key is computed for every element first (an
  exception there leaves the sort), then the list is sorted by key; the sort is stable.
\<close>

fun keyed :: "tx list \<Rightarrow> py_error + (int \<times> tx) list" where
  "keyed [] = Inr []"
| "keyed (t # ts) =
     (case lt_key t of
        Inl e \<Rightarrow> Inl e
      | Inr k \<Rightarrow> (case keyed ts of Inl e \<Rightarrow> Inl e | Inr ks \<Rightarrow> Inr ((k, t) # ks)))"

definition sort_by_lt :: "tx list \<Rightarrow> py_error + tx list" where
  "sort_by_lt ts = (case keyed ts of Inl e \<Rightarrow> Inl e | Inr ks \<Rightarrow> Inr (map snd (sort_key fst ks)))"

text \<open>
  Lines 131-133 and 228-230: \<^verbatim>\<open>if tx_lt and (self.last_lt is None or int(tx_lt) >
  int(self.last_lt)): self.last_lt = tx_lt\<close>.
\<close>

definition advance :: "tracker \<Rightarrow> jval \<Rightarrow> py_error + tracker" where
  "advance s tx_lt =
     (if \<not> truthy tx_lt then Inr s
      else if last_lt s = JNull then Inr (s\<lparr>last_lt := tx_lt\<rparr>)
      else (case py_int tx_lt of
              Inl e \<Rightarrow> Inl e
            | Inr a \<Rightarrow>
                (case py_int (last_lt s) of
                   Inl e \<Rightarrow> Inl e
                 | Inr b \<Rightarrow> Inr (if a > b then s\<lparr>last_lt := tx_lt\<rparr> else s))))"

text \<open>
  The \<^verbatim>\<open>for tx in new_transactions\<close> loop of lines 126-133 and 224-230. A record counts
  as delivered once its formatted text is printed.
\<close>

fun deliver :: "tracker \<Rightarrow> tx list \<Rightarrow> outcome" where
  "deliver s [] = returns s"
| "deliver s (t # ts) =
     (case format_transaction t of
        Inl e \<Rightarrow> raises s e
      | Inr u \<Rightarrow>
          (case get_lt t of
             Inl e \<Rightarrow> \<lparr>state = s, delivered = [t], raised = Some e\<rparr>
           | Inr l \<Rightarrow>
               (case advance s l of
                  Inl e \<Rightarrow> \<lparr>state = s, delivered = [t], raised = Some e\<rparr>
                | Inr s' \<Rightarrow>
                    then_do \<lparr>state = s', delivered = [t], raised = None\<rparr> (\<lambda>s''. deliver s'' ts))))"

text \<open>
  Lines 111-133, and the same text at lines 211-230: classify, then, if anything is
  new, sort and deliver.
\<close>

definition reconcile :: "tracker \<Rightarrow> tx list \<Rightarrow> outcome" where
  "reconcile s page =
     (case classify s page of
        (s1, Inl e) \<Rightarrow> raises s1 e
      | (s1, Inr new_transactions) \<Rightarrow>
          if new_transactions = [] then returns s1
          else (case sort_by_lt new_transactions of
                  Inl e \<Rightarrow> raises s1 e
                | Inr sorted_new \<Rightarrow> deliver s1 sorted_new))"

text \<open>The body of the \<^verbatim>\<open>try\<close> blocks: fetch, then reconcile.\<close>

definition fetch_and_reconcile :: "tracker \<Rightarrow> response \<Rightarrow> outcome" where
  "fetch_and_reconcile s r =
     (case get_transactions_history r of
        Inl e \<Rightarrow> raises s e
      | Inr page \<Rightarrow> reconcile s page)"

text \<open>\<^verbatim>\<open>check_single_update\<close> (lines 206-233): the body under \<^verbatim>\<open>except Exception\<close>.\<close>

definition check_single_update :: "tracker \<Rightarrow> response \<Rightarrow> outcome" where
  "check_single_update s r = except_Exception (fetch_and_reconcile s r)"

subsection \<open>Polling\<close>

text \<open>One iteration of the \<^verbatim>\<open>while True\<close> loop of lines 106-140.\<close>

definition poll_cycle :: "tracker \<Rightarrow> response \<Rightarrow> outcome" where
  "poll_cycle s r = except_Exception (fetch_and_reconcile s r)"

text \<open>
  The loop itself, run on the responses of its first cycles. The loop has no exit:
  it ends only when an exception leaves an iteration.
\<close>

fun poll_loop :: "tracker \<Rightarrow> response list \<Rightarrow> outcome" where
  "poll_loop s [] = returns s"
| "poll_loop s (r # rs) = then_do (poll_cycle s r) (\<lambda>s'. poll_loop s' rs)"

text \<open>
  The baseline of lines 95-101: the watermark is set to the \<^verbatim>\<open>lt\<close> of the first record of
  the page, the non-empty hashes of the page are added. Nothing is printed. The block
  is outside every \<^verbatim>\<open>try\<close>.
\<close>

fun add_hashes :: "tracker \<Rightarrow> tx list \<Rightarrow> outcome" where
  "add_hashes s [] = returns s"
| "add_hashes s (t # ts) =
     (case get_hash t of
        Inl e \<Rightarrow> raises s e
      | Inr h \<Rightarrow>
          add_hashes (if truthy h then s\<lparr>processed_hashes := insert h (processed_hashes s)\<rparr> else s) ts)"

definition seed :: "tracker \<Rightarrow> response \<Rightarrow> outcome" where
  "seed s r =
     (case get_transactions_history r of
        Inl e \<Rightarrow> raises s e
      | Inr initial_txs \<Rightarrow>
          (case initial_txs of
             [] \<Rightarrow> returns s
           | t0 # rest \<Rightarrow>
               (case get_lt t0 of
                  Inl e \<Rightarrow> raises s e
                | Inr l \<Rightarrow> add_hashes (s\<lparr>last_lt := l\<rparr>) initial_txs)))"

text \<open>\<^verbatim>\<open>check_new_transactions\<close> (lines 90-140): the baseline, then the loop.\<close>

definition check_new_transactions :: "tracker \<Rightarrow> response \<Rightarrow> response list \<Rightarrow> outcome" where
  "check_new_transactions s r0 rs = then_do (seed s r0) (\<lambda>s'. poll_loop s' rs)"

subsection \<open>The websocket monitor and the start of the program\<close>

text \<open>
  A message of the websocket. \<open>AccountUpdate r\<close>: an object whose \<^verbatim>\<open>method\<close> is
  \<^verbatim>\<open>account_update\<close>; \<open>r\<close> is the response to the fetch it triggers. \<open>OtherMessage\<close>:
  another object. \<open>NotJson\<close>: \<^verbatim>\<open>json.loads\<close> raises \<^verbatim>\<open>JSONDecodeError\<close>, which the inner
  handler prints. \<open>NotObject\<close>: the message decodes to a value without \<^verbatim>\<open>.get\<close>, and
  \<^verbatim>\<open>AttributeError\<close> leaves the \<^verbatim>\<open>async for\<close>.
\<close>

datatype ws_message = AccountUpdate response | OtherMessage | NotJson | NotObject

text \<open>
  How a connection ends: with \<^verbatim>\<open>ConnectionClosed\<close> raised into the \<^verbatim>\<open>async for\<close>
  (re-raised at line 194), or with the iteration finishing normally.
\<close>

datatype ws_end = ClosedError | ClosedOK

text \<open>
  One pass of the \<^verbatim>\<open>while\<close> loop of \<^verbatim>\<open>websocket_monitor\<close>: either
  \<^verbatim>\<open>websockets.connect\<close> (or the subscription) raises, or the connection is made and
  delivers its messages before it ends.
\<close>

datatype attempt = ConnectFailed | Connected "ws_message list" ws_end

definition max_retries :: nat where
  "max_retries = 3"

text \<open>The \<^verbatim>\<open>async for message in websocket\<close> loop of lines 178-190.\<close>

fun listen :: "tracker \<Rightarrow> ws_message list \<Rightarrow> outcome" where
  "listen s [] = returns s"
| "listen s (m # ms) =
     (case m of
        AccountUpdate r \<Rightarrow> then_do (check_single_update s r) (\<lambda>s'. listen s' ms)
      | OtherMessage \<Rightarrow> listen s ms
      | NotJson \<Rightarrow> listen s ms
      | NotObject \<Rightarrow> raises s AttributeError)"

text \<open>The \<^verbatim>\<open>try\<close> body of lines 148-194 for one attempt.\<close>

definition session :: "tracker \<Rightarrow> attempt \<Rightarrow> outcome" where
  "session s a =
     (case a of
        ConnectFailed \<Rightarrow> raises s ConnectionError
      | Connected ms e \<Rightarrow>
          then_do (listen s ms)
            (\<lambda>s'. case e of ClosedError \<Rightarrow> raises s' ConnectionError | ClosedOK \<Rightarrow> returns s'))"

text \<open>
  \<^verbatim>\<open>websocket_monitor\<close> (lines 142-204) with its local \<^verbatim>\<open>retry_count\<close> as first argument,
  run on the attempts the network allows. It is called under
  \<^verbatim>\<open>asyncio.wait_for(..., timeout=10)\<close>: when the attempts given are used up, the
  timeout has cancelled the wait and \<^verbatim>\<open>TimeoutError\<close> leaves \<^verbatim>\<open>wait_for\<close>. The waits
  that can be cancelled are the connect, the wait for the next message and the sleep
  between attempts; \<^verbatim>\<open>check_single_update\<close> contains no \<^verbatim>\<open>await\<close> and is never cut.
\<close>

fun websocket_monitor :: "nat \<Rightarrow> tracker \<Rightarrow> attempt list \<Rightarrow> outcome" where
  "websocket_monitor retry_count s [] =
     (if retry_count < max_retries then raises s TimeoutError else returns s)"
| "websocket_monitor retry_count s (a # as) =
     (if retry_count < max_retries
      then (let b = session s a in
            case raised b of
              None \<Rightarrow> then_do b (\<lambda>s'. websocket_monitor retry_count s' as)
            | Some e \<Rightarrow>
                if retry_count + 1 < max_retries
                then then_do (except_Exception b) (\<lambda>s'. websocket_monitor (retry_count + 1) s' as)
                else b)
      else returns s)"

text \<open>
  The inputs of a whole run: the response to the first fetch, the websocket attempts,
  the response to the baseline fetch of the polling method, and the responses to the
  fetches of the polling loop.
\<close>

record script =
  first_fetch :: response
  attempts :: "attempt list"
  baseline_fetch :: response
  poll_fetches :: "response list"

text \<open>
  \<^verbatim>\<open>start_monitoring\<close> (lines 235-252): \<^verbatim>\<open>check_single_update\<close>, then the websocket
  monitor; any exception of the monitor, the timeout included, leads to
  \<^verbatim>\<open>check_new_transactions\<close>, called inside the handler.
\<close>

definition start_monitoring :: "tracker \<Rightarrow> script \<Rightarrow> outcome" where
  "start_monitoring s sc =
     then_do (check_single_update s (first_fetch sc))
       (\<lambda>s1. let b = websocket_monitor 0 s1 (attempts sc) in
             case raised b of
               None \<Rightarrow> b
             | Some e \<Rightarrow>
                 then_do (except_Exception b)
                   (\<lambda>s2. check_new_transactions s2 (baseline_fetch sc) (poll_fetches sc)))"

text \<open>
  \<^verbatim>\<open>main\<close>: a fresh tracker is started. An exception that leaves \<^verbatim>\<open>start_monitoring\<close>
  is printed by \<^verbatim>\<open>main\<close> as a fatal error, and the program ends.
\<close>

definition main :: "script \<Rightarrow> outcome" where
  "main sc = start_monitoring init sc"

subsection \<open>Notions used to state the properties\<close>

text \<open>The hash and the logical time the tracker reads off a record (\<open>JNull\<close> when the lookup raises).\<close>

definition hash_of :: "tx \<Rightarrow> jval" where
  "hash_of t = (case get_hash t of Inl e \<Rightarrow> JNull | Inr h \<Rightarrow> h)"

definition lt_of :: "tx \<Rightarrow> jval" where
  "lt_of t = (case get_lt t of Inl e \<Rightarrow> JNull | Inr l \<Rightarrow> l)"

text \<open>Both values convert with \<^verbatim>\<open>int\<close>, and the first is the greater integer.\<close>

definition exceeds :: "jval \<Rightarrow> jval \<Rightarrow> bool" where
  "exceeds l w =
     (case py_int l of
        Inl e \<Rightarrow> False
      | Inr a \<Rightarrow> (case py_int w of Inl e \<Rightarrow> False | Inr b \<Rightarrow> b < a))"

text \<open>The watermark is unset, or the logical time of the record exceeds it.\<close>

definition above :: "tracker \<Rightarrow> tx \<Rightarrow> bool" where
  "above s t = (last_lt s = JNull \<or> exceeds (lt_of t) (last_lt s))"

text \<open>
  What is delivered by a piece of code is fresh: the hashes delivered are pairwise
  different, were not in the seen-set before, and are in it afterwards; the seen-set
  only grows.
\<close>

definition fresh :: "tracker \<Rightarrow> outcome \<Rightarrow> bool" where
  "fresh s a =
     (processed_hashes s \<subseteq> processed_hashes (state a) \<and>
      distinct (map hash_of (delivered a)) \<and>
      hash_of ` set (delivered a) \<subseteq> processed_hashes (state a) - processed_hashes s)"

text \<open>
  The order in which the watermark may move: from unset to anything, and from a value
  that converts to an integer to one that converts to an integer at least as large.
\<close>

definition wm_le :: "jval \<Rightarrow> jval \<Rightarrow> bool" where
  "wm_le w w' =
     (w = JNull \<or> w' = w \<or>
      (case py_int w of
         Inl e \<Rightarrow> False
       | Inr a \<Rightarrow> (case py_int w' of Inl e \<Rightarrow> False | Inr b \<Rightarrow> a \<le> b)))"

text \<open>The watermark is unset or converts to an integer.\<close>

definition wm_ok :: "tracker \<Rightarrow> bool" where
  "wm_ok s = (last_lt s = JNull \<or> \<not> isl (py_int (last_lt s)))"

text \<open>
  A well-formed record: it has a non-empty hash and a non-empty logical time that
  converts to an integer, and it can be formatted.
\<close>

definition well_formed :: "tx \<Rightarrow> bool" where
  "well_formed t =
     (truthy (hash_of t) \<and> truthy (lt_of t) \<and> \<not> isl (py_int (lt_of t)) \<and> displayable t)"

text \<open>The logical time of a record as an integer (\<open>0\<close> when it does not convert).\<close>

definition lt_int :: "tx \<Rightarrow> int" where
  "lt_int t = (case py_int (lt_of t) of Inl e \<Rightarrow> 0 | Inr n \<Rightarrow> n)"

text \<open>
  A record as the service sends it, for the examples: hash and logical time are strings,
  and the other fields are such that the record can be formatted.
\<close>

definition mk_tx :: "string \<Rightarrow> string \<Rightarrow> tx" where
  "mk_tx h l = \<lparr>transaction_id = TidObj (Some (JStr h)) (Some (JStr l)), displayable = True\<rparr>"

text \<open>
  An example run: the first fetch returns two records, the websocket fails three times,
  the baseline fetch fails, and the polling loop sees overlapping pages, one of them
  with the same record twice.
\<close>

definition example_script :: script where
  "example_script =
     \<lparr>first_fetch = ApiResult [mk_tx ''b'' ''101'', mk_tx ''a'' ''100''],
      attempts = [ConnectFailed, ConnectFailed, ConnectFailed],
      baseline_fetch = RequestException,
      poll_fetches =
        [ApiResult [mk_tx ''c'' ''102'', mk_tx ''c'' ''102'', mk_tx ''b'' ''101''],
         RequestException,
         ApiResult [mk_tx ''d'' ''103'', mk_tx ''c'' ''102'']]\<rparr>"

text \<open>The integer a record is sorted by (\<open>0\<close> when the key raises).\<close>

definition key_int :: "tx \<Rightarrow> int" where
  "key_int t = (case lt_key t of Inl e \<Rightarrow> 0 | Inr k \<Rightarrow> k)"

text \<open>
  The delivery order in the words of the specification: ascending by logical time, and
  by hash where the logical times are equal. Strings are compared lexicographically.
\<close>

definition hash_str :: "tx \<Rightarrow> string" where
  "hash_str t = (case hash_of t of JStr h \<Rightarrow> h | JInt n \<Rightarrow> [] | JNull \<Rightarrow> [])"

definition spec_order :: "tx list \<Rightarrow> bool" where
  "spec_order ts =
     sorted_wrt (\<lambda>u v. lt_int u < lt_int v \<or> (lt_int u = lt_int v \<and> hash_str u \<le> hash_str v)) ts"

text \<open>The fetch produced no page: the request failed, an exception left it, or the service reported an error.\<close>

definition fetch_failed :: "response \<Rightarrow> bool" where
  "fetch_failed r =
     (case r of
        RequestException \<Rightarrow> True
      | Raises e \<Rightarrow> True
      | ApiError \<Rightarrow> True
      | ApiResult page \<Rightarrow> False)"

text \<open>
  A record the tracker can process: it has a non-empty hash and a logical time that
  converts to an integer, and it can be formatted.
\<close>

definition processable :: "tx \<Rightarrow> bool" where
  "processable t = (truthy (hash_of t) \<and> \<not> isl (py_int (lt_of t)) \<and> displayable t)"

text \<open>
  A page of \<open>n\<close> well-formed records with \<open>n\<close> different hashes: the hash of the
  \<open>i\<close>-th record is the letter \<^verbatim>\<open>h\<close> repeated \<open>i + 1\<close> times.
\<close>

definition numbered_page :: "nat \<Rightarrow> tx list" where
  "numbered_page n = map (\<lambda>i. mk_tx (replicate (Suc i) CHR ''h'') ''1'') [0..<n]"

section \<open>Properties\<close>

subsection \<open>Classification\<close>

lemma classify_last_lt: "last_lt (fst (classify s p)) = last_lt s"
  by (induction p arbitrary: s) (auto split: sum.splits simp: case_prod_beta)

lemma classify_mono: "processed_hashes s \<subseteq> processed_hashes (fst (classify s p))"
proof (induction p arbitrary: s)
  case Nil
  show ?case by simp
next
  case (Cons t ts)
  have step: "processed_hashes (s\<lparr>processed_hashes := insert h (processed_hashes s)\<rparr>)
      \<subseteq> processed_hashes (fst (classify (s\<lparr>processed_hashes := insert h (processed_hashes s)\<rparr>) ts))" for h
    by (rule Cons.IH)
  show ?case using Cons.IH[of s] step
    by (auto split: sum.splits simp: case_prod_beta)
qed

lemma is_new_True:
  "is_new s h l = Inr True \<longleftrightarrow>
     truthy h \<and> h \<notin> processed_hashes s \<and> (last_lt s = JNull \<or> exceeds l (last_lt s))"
  by (auto simp: is_new_def exceeds_def split: sum.splits)

lemma above_processed_hashes_update [simp]:
  "above (s\<lparr>processed_hashes := H\<rparr>) u = above s u"
  by (simp add: above_def)

text \<open>
  When the classification loop finishes, the new records are records of the page with
  non-empty, pairwise different hashes that were not in the seen-set and passed the
  watermark test, and the seen-set has grown by exactly their hashes.
\<close>

lemma classify_new:
  "classify s p = (s', Inr new) \<Longrightarrow>
     processed_hashes s' = processed_hashes s \<union> hash_of ` set new \<and>
     distinct (map hash_of new) \<and>
     (\<forall>t\<in>set new. t \<in> set p \<and> get_hash t = Inr (hash_of t) \<and> get_lt t = Inr (lt_of t) \<and>
        truthy (hash_of t) \<and> hash_of t \<notin> processed_hashes s \<and> above s t)"
proof (induction p arbitrary: s s' new)
  case Nil
  then show ?case by simp
next
  case (Cons t ts)
  show ?case
  proof (cases "get_hash t")
    case (Inl e)
    with Cons.prems show ?thesis by simp
  next
    case h: (Inr h)
    show ?thesis
    proof (cases "get_lt t")
      case (Inl e)
      with Cons.prems h show ?thesis by simp
    next
      case l: (Inr l)
      show ?thesis
      proof (cases "is_new s h l")
        case (Inl e)
        with Cons.prems h l show ?thesis by simp
      next
        case (Inr b)
        show ?thesis
        proof (cases b)
          case False
          with Cons.prems h l Inr have "classify s ts = (s', Inr new)" by simp
          from Cons.IH[OF this] show ?thesis by auto
        next
          case True
          let ?s1 = "s\<lparr>processed_hashes := insert h (processed_hashes s)\<rparr>"
          from Cons.prems h l Inr True obtain new' where
            c: "classify ?s1 ts = (s', Inr new')" and n: "new = t # new'"
            by (cases "classify ?s1 ts"; cases "snd (classify ?s1 ts)") auto
          from Inr True have isn: "truthy h" "h \<notin> processed_hashes s"
            "last_lt s = JNull \<or> exceeds l (last_lt s)"
            by (simp_all add: is_new_True)
          have ht: "hash_of t = h" using h by (simp add: hash_of_def)
          have lt: "lt_of t = l" using l by (simp add: lt_of_def)
          have ab: "above s t" using isn(3) lt by (simp add: above_def)
          from Cons.IH[OF c] have ih:
            "processed_hashes s' = insert h (processed_hashes s) \<union> hash_of ` set new'"
            "distinct (map hash_of new')"
            "\<forall>u\<in>set new'. u \<in> set ts \<and> get_hash u = Inr (hash_of u) \<and> get_lt u = Inr (lt_of u) \<and>
               truthy (hash_of u) \<and> hash_of u \<notin> insert h (processed_hashes s) \<and> above s u"
            by simp_all
          show ?thesis using ih isn ht lt ab h l n by auto
        qed
      qed
    qed
  qed
qed

subsection \<open>Sorting\<close>

lemma keyed_Inr:
  "keyed ts = Inr ks \<Longrightarrow> map snd ks = ts \<and> (\<forall>(k, t)\<in>set ks. lt_key t = Inr k)"
  by (induction ts arbitrary: ks) (auto split: sum.splits)

text \<open>
  When the sort returns, its result is a permutation of its argument, every record has a
  key, the keys are in non-decreasing order, and records of equal key keep their order.
\<close>

lemma sort_by_lt_Inr:
  assumes "sort_by_lt ts = Inr sorted_new"
  shows "mset sorted_new = mset ts"
    and "\<forall>t\<in>set ts. \<exists>k. lt_key t = Inr k"
    and "sorted (map (\<lambda>t. projr (lt_key t)) sorted_new)"
    and "filter (\<lambda>t. lt_key t = Inr k) sorted_new = filter (\<lambda>t. lt_key t = Inr k) ts"
proof -
  from assms obtain ks where ks: "keyed ts = Inr ks" and s: "sorted_new = map snd (sort_key fst ks)"
    by (auto simp: sort_by_lt_def split: sum.splits)
  from keyed_Inr[OF ks] have m: "map snd ks = ts" and k: "\<forall>(k, t)\<in>set ks. lt_key t = Inr k" by auto
  have "mset sorted_new = mset (map snd ks)" unfolding s by simp
  then show "mset sorted_new = mset ts" by (simp add: m)
  show "\<forall>t\<in>set ts. \<exists>k. lt_key t = Inr k" using k m by force
  have "map (\<lambda>t. projr (lt_key t)) sorted_new = map (\<lambda>p. projr (lt_key (snd p))) (sort_key fst ks)"
    unfolding s by simp
  also have "\<dots> = map fst (sort_key fst ks)" using k by (auto intro!: map_cong)
  finally show "sorted (map (\<lambda>t. projr (lt_key t)) sorted_new)" by simp
  have eq: "(lt_key (snd p) = Inr k) = (fst p = k)" if "p \<in> set ks" for p
    using k that by (cases p) auto
  have "filter (\<lambda>t. lt_key t = Inr k) sorted_new
      = map snd (filter (\<lambda>p. lt_key (snd p) = Inr k) (sort_key fst ks))"
    unfolding s by (simp add: filter_map comp_def)
  also have "\<dots> = map snd (filter (\<lambda>p. fst p = k) (sort_key fst ks))"
    using eq by (auto intro!: arg_cong[where f = "map snd"] filter_cong)
  also have "\<dots> = map snd (filter (\<lambda>p. fst p = k) ks)"
    by (simp add: sort_key_stable)
  also have "\<dots> = map snd (filter (\<lambda>p. lt_key (snd p) = Inr k) ks)"
    using eq by (auto intro!: arg_cong[where f = "map snd"] filter_cong)
  also have "\<dots> = filter (\<lambda>t. lt_key t = Inr k) (map snd ks)"
    by (simp add: filter_map comp_def)
  finally show "filter (\<lambda>t. lt_key t = Inr k) sorted_new = filter (\<lambda>t. lt_key t = Inr k) ts"
    by (simp add: m)
qed

text \<open>The sort returns when every record has a key.\<close>

lemma keyed_total:
  "\<forall>t\<in>set ts. \<exists>k. lt_key t = Inr k \<Longrightarrow> \<exists>ks. keyed ts = Inr ks"
  by (induction ts) auto

lemma sort_by_lt_total:
  "\<forall>t\<in>set ts. \<exists>k. lt_key t = Inr k \<Longrightarrow> \<exists>sorted_new. sort_by_lt ts = Inr sorted_new"
  using keyed_total[of ts] by (auto simp: sort_by_lt_def)

text \<open>A record with a non-empty \<^verbatim>\<open>lt\<close> is sorted by that value.\<close>

lemma lt_key_truthy:
  "get_lt t = Inr l \<Longrightarrow> truthy l \<Longrightarrow> lt_key t = py_int l"
  by (auto simp: get_lt_def lt_key_def get_lt_or_0_def split: tid.splits option.splits)

subsection \<open>Sequencing\<close>

lemma then_do_None:
  "raised a = None \<Longrightarrow>
     then_do a f = \<lparr>state = state (f (state a)), delivered = delivered a @ delivered (f (state a)),
        raised = raised (f (state a))\<rparr>"
  by (simp add: then_do_def Let_def)

lemma then_do_Some: "raised a = Some e \<Longrightarrow> then_do a f = a"
  by (simp add: then_do_def)

lemma returns_simps [simp]:
  "state (returns s) = s" "delivered (returns s) = []" "raised (returns s) = None"
  by (simp_all add: returns_def)

lemma raises_simps [simp]:
  "state (raises s e) = s" "delivered (raises s e) = []" "raised (raises s e) = Some e"
  by (simp_all add: raises_def)

lemma except_Exception_simps [simp]:
  "state (except_Exception a) = state a" "delivered (except_Exception a) = delivered a"
  "raised (except_Exception a) = None"
  by (simp_all add: except_Exception_def)

subsection \<open>The watermark order\<close>

lemma wm_le_refl [simp]: "wm_le w w"
  by (simp add: wm_le_def)

lemma wm_le_JNull [simp]: "wm_le JNull w"
  by (simp add: wm_le_def)

lemma wm_le_trans: "wm_le a b \<Longrightarrow> wm_le b c \<Longrightarrow> wm_le a c"
  by (auto simp: wm_le_def split: sum.splits)

lemma advance_Inr:
  "advance s l = Inr s' \<Longrightarrow>
     processed_hashes s' = processed_hashes s \<and> wm_le (last_lt s) (last_lt s')"
  by (auto simp: advance_def wm_le_def split: if_splits sum.splits)

subsection \<open>Delivery\<close>

lemma deliver_hashes: "processed_hashes (state (deliver s ts)) = processed_hashes s"
proof (induction ts arbitrary: s)
  case Nil
  show ?case by simp
next
  case (Cons t ts)
  show ?case
    using Cons.IH advance_Inr
    by (auto simp: then_do_def Let_def split: sum.splits)
qed

lemma deliver_wm_le: "wm_le (last_lt s) (last_lt (state (deliver s ts)))"
proof (induction ts arbitrary: s)
  case Nil
  show ?case by simp
next
  case (Cons t ts)
  show ?case
  proof (cases "format_transaction t")
    case (Inl e)
    then show ?thesis by simp
  next
    case f: (Inr u)
    show ?thesis
    proof (cases "get_lt t")
      case (Inl e)
      with f show ?thesis by simp
    next
      case l: (Inr l)
      show ?thesis
      proof (cases "advance s l")
        case (Inl e)
        with f l show ?thesis by simp
      next
        case (Inr s')
        from advance_Inr[OF Inr] have "wm_le (last_lt s) (last_lt s')" by simp
        moreover have "wm_le (last_lt s') (last_lt (state (deliver s' ts)))" by (rule Cons.IH)
        ultimately have "wm_le (last_lt s) (last_lt (state (deliver s' ts)))" by (rule wm_le_trans)
        with f l Inr show ?thesis by (simp add: then_do_def Let_def)
      qed
    qed
  qed
qed

text \<open>The delivery loop prints the records in the order given and stops at the first exception.\<close>

lemma deliver_prefix: "\<exists>rest. ts = delivered (deliver s ts) @ rest"
proof (induction ts arbitrary: s)
  case Nil
  show ?case by simp
next
  case (Cons t ts)
  show ?case
    using Cons.IH
    by (auto simp: then_do_def Let_def split: sum.splits)
qed

lemma deliver_displayable: "u \<in> set (delivered (deliver s ts)) \<Longrightarrow> displayable u"
proof (induction ts arbitrary: s)
  case Nil
  then show ?case by simp
next
  case (Cons t ts)
  then show ?case
    by (auto simp: then_do_def Let_def format_transaction_def split: sum.splits if_splits)
qed

lemma deliver_Nil_state: "delivered (deliver s ts) = [] \<Longrightarrow> state (deliver s ts) = s"
  by (cases ts) (auto simp: then_do_def Let_def split: sum.splits)

subsection \<open>Reconciling\<close>

text \<open>The three ways a reconcile can go, by the result of the classification loop.\<close>

lemma reconcile_cases:
  obtains (Raised) s1 e where "classify s page = (s1, Inl e)" "reconcile s page = raises s1 e"
  | (Nothing) s1 where "classify s page = (s1, Inr [])" "reconcile s page = returns s1"
  | (SortRaised) s1 new e where "classify s page = (s1, Inr new)" "new \<noteq> []"
      "sort_by_lt new = Inl e" "reconcile s page = raises s1 e"
  | (Delivered) s1 new sorted_new where "classify s page = (s1, Inr new)" "new \<noteq> []"
      "sort_by_lt new = Inr sorted_new" "reconcile s page = deliver s1 sorted_new"
proof (cases "classify s page")
  case (Pair s1 r)
  show ?thesis
  proof (cases r)
    case (Inl e)
    with Pair show ?thesis by (intro Raised[of s1 e]) (simp_all add: reconcile_def)
  next
    case (Inr new)
    show ?thesis
    proof (cases "new = []")
      case True
      with Pair Inr show ?thesis by (intro Nothing[of s1]) (simp_all add: reconcile_def)
    next
      case False
      show ?thesis
      proof (cases "sort_by_lt new")
        case (Inl e)
        with Pair Inr False show ?thesis
          by (intro SortRaised[of s1 new e]) (simp_all add: reconcile_def)
      next
        case sorted: (Inr sorted_new)
        with Pair Inr False show ?thesis
          by (intro Delivered[of s1 new sorted_new]) (simp_all add: reconcile_def)
      qed
    qed
  qed
qed

text \<open>The seen-set only grows in a reconcile.\<close>

lemma reconcile_mono: "processed_hashes s \<subseteq> processed_hashes (state (reconcile s page))"
proof (cases s page rule: reconcile_cases)
  case (Raised s1 e)
  with classify_mono[of s page] show ?thesis by simp
next
  case (Nothing s1)
  with classify_mono[of s page] show ?thesis by simp
next
  case (SortRaised s1 new e)
  with classify_mono[of s page] show ?thesis by simp
next
  case (Delivered s1 new sorted_new)
  with classify_mono[of s page] show ?thesis by (simp add: deliver_hashes)
qed

text \<open>
  Every record a reconcile delivers is a record of the page that was classified as
  new; the records delivered have pairwise different hashes, all of them in the
  seen-set afterwards.
\<close>

lemma reconcile_delivered:
  "distinct (map hash_of (delivered (reconcile s page))) \<and>
   (\<forall>t\<in>set (delivered (reconcile s page)).
      t \<in> set page \<and> truthy (hash_of t) \<and> hash_of t \<notin> processed_hashes s \<and> above s t \<and>
      displayable t \<and> hash_of t \<in> processed_hashes (state (reconcile s page)))"
proof (cases s page rule: reconcile_cases)
  case (Raised s1 e)
  then show ?thesis by simp
next
  case (Nothing s1)
  then show ?thesis by simp
next
  case (SortRaised s1 new e)
  then show ?thesis by simp
next
  case (Delivered s1 new sorted_new)
  from classify_new[OF Delivered(1)] have
    P: "processed_hashes s1 = processed_hashes s \<union> hash_of ` set new"
    and d: "distinct (map hash_of new)"
    and n: "\<forall>t\<in>set new. t \<in> set page \<and> truthy (hash_of t) \<and> hash_of t \<notin> processed_hashes s \<and> above s t"
    by auto
  from sort_by_lt_Inr(1)[OF Delivered(3)] have m: "mset sorted_new = mset new" .
  then have "mset (map hash_of sorted_new) = mset (map hash_of new)" by simp
  then have ds: "distinct (map hash_of sorted_new)"
    using d by (metis mset_eq_imp_distinct_iff)
  from m have ss: "set sorted_new = set new" by (rule mset_eq_setD)
  obtain rest where r: "sorted_new = delivered (deliver s1 sorted_new) @ rest"
    using deliver_prefix by blast
  have sub: "set (delivered (deliver s1 sorted_new)) \<subseteq> set new"
    using r ss by (metis Un_iff set_append subsetI)
  have "distinct (map hash_of (delivered (deliver s1 sorted_new)))"
    using ds r by (metis distinct_append map_append)
  then show ?thesis
    using sub n P deliver_displayable[of _ s1 sorted_new] Delivered(4)
    by (auto simp: deliver_hashes)
qed

lemma reconcile_fresh: "fresh s (reconcile s page)"
  using reconcile_mono[of s page] reconcile_delivered[of s page]
  by (auto simp: fresh_def)

subsection \<open>Freshness of everything delivered\<close>

lemma fresh_returns [simp]: "fresh s (returns s)"
  by (simp add: fresh_def)

lemma fresh_raises [simp]: "fresh s (raises s e)"
  by (simp add: fresh_def)

lemma fresh_except_Exception: "fresh s a \<Longrightarrow> fresh s (except_Exception a)"
  by (simp add: fresh_def)

lemma fresh_then_do:
  assumes a: "fresh s a" and f: "\<And>s'. fresh s' (f s')"
  shows "fresh s (then_do a f)"
proof (cases "raised a")
  case (Some e)
  with a show ?thesis by (simp add: then_do_Some)
next
  case None
  let ?b = "f (state a)"
  from f have b: "fresh (state a) ?b" .
  from a have a1: "processed_hashes s \<subseteq> processed_hashes (state a)"
    and a2: "distinct (map hash_of (delivered a))"
    and a3: "hash_of ` set (delivered a) \<subseteq> processed_hashes (state a) - processed_hashes s"
    by (simp_all add: fresh_def)
  from b have b1: "processed_hashes (state a) \<subseteq> processed_hashes (state ?b)"
    and b2: "distinct (map hash_of (delivered ?b))"
    and b3: "hash_of ` set (delivered ?b) \<subseteq> processed_hashes (state ?b) - processed_hashes (state a)"
    by (simp_all add: fresh_def)
  from a3 b3 have "hash_of ` set (delivered a) \<inter> hash_of ` set (delivered ?b) = {}"
    by blast
  then have d: "distinct (map hash_of (delivered a @ delivered ?b))"
    using a2 b2 by simp
  have "hash_of ` set (delivered a @ delivered ?b) \<subseteq> processed_hashes (state ?b) - processed_hashes s"
    using a1 a3 b1 b3 by auto
  moreover have "processed_hashes s \<subseteq> processed_hashes (state ?b)"
    using a1 b1 by blast
  ultimately show ?thesis
    using d None by (simp add: then_do_None fresh_def)
qed

lemma fresh_fetch_and_reconcile: "fresh s (fetch_and_reconcile s r)"
  by (simp add: fetch_and_reconcile_def reconcile_fresh split: sum.splits)

lemma fresh_check_single_update: "fresh s (check_single_update s r)"
  by (simp add: check_single_update_def fresh_except_Exception fresh_fetch_and_reconcile)

lemma fresh_poll_cycle: "fresh s (poll_cycle s r)"
  by (simp add: poll_cycle_def fresh_except_Exception fresh_fetch_and_reconcile)

lemma fresh_poll_loop: "fresh s (poll_loop s rs)"
  by (induction rs arbitrary: s) (simp_all add: fresh_then_do fresh_poll_cycle)

lemma add_hashes_delivered [simp]: "delivered (add_hashes s ts) = []"
  by (induction ts arbitrary: s) (simp_all split: sum.splits)

lemma add_hashes_mono: "processed_hashes s \<subseteq> processed_hashes (state (add_hashes s ts))"
proof (induction ts arbitrary: s)
  case Nil
  show ?case by simp
next
  case (Cons t ts)
  show ?case
  proof (cases "get_hash t")
    case (Inl e)
    then show ?thesis by simp
  next
    case (Inr h)
    have "processed_hashes s \<subseteq> processed_hashes
        (if truthy h then s\<lparr>processed_hashes := insert h (processed_hashes s)\<rparr> else s)"
      by auto
    also have "\<dots> \<subseteq> processed_hashes (state (add_hashes
        (if truthy h then s\<lparr>processed_hashes := insert h (processed_hashes s)\<rparr> else s) ts))"
      by (rule Cons.IH)
    finally show ?thesis using Inr by simp
  qed
qed

lemma seed_delivered [simp]: "delivered (seed s r) = []"
  by (simp add: seed_def split: sum.splits list.splits)

lemma fresh_seed: "fresh s (seed s r)"
proof -
  have "processed_hashes s \<subseteq> processed_hashes (state (seed s r))"
    using add_hashes_mono[of "s\<lparr>last_lt := l\<rparr>" for l]
    by (auto simp: seed_def simp del: add_hashes.simps split: sum.splits list.splits)
  then show ?thesis by (simp add: fresh_def)
qed

lemma fresh_check_new_transactions: "fresh s (check_new_transactions s r0 rs)"
  by (simp add: check_new_transactions_def fresh_then_do fresh_seed fresh_poll_loop)

lemma fresh_listen: "fresh s (listen s ms)"
proof (induction ms arbitrary: s)
  case Nil
  show ?case by simp
next
  case (Cons m ms)
  show ?case
    by (cases m) (simp_all add: Cons.IH fresh_then_do fresh_check_single_update)
qed

lemma fresh_session: "fresh s (session s a)"
proof (cases a)
  case ConnectFailed
  then show ?thesis by (simp add: session_def)
next
  case (Connected ms e)
  have "fresh s' (case e of ClosedError \<Rightarrow> raises s' ConnectionError | ClosedOK \<Rightarrow> returns s')" for s'
    by (cases e) simp_all
  with Connected show ?thesis
    by (simp add: session_def fresh_then_do fresh_listen)
qed

lemma fresh_websocket_monitor: "fresh s (websocket_monitor n s as)"
proof (induction as arbitrary: n s)
  case Nil
  show ?case by simp
next
  case (Cons a as)
  show ?case
    by (auto simp: Let_def fresh_session fresh_then_do fresh_except_Exception Cons.IH
        split: option.splits)
qed

lemma fresh_start_monitoring: "fresh s (start_monitoring s sc)"
proof -
  have "fresh s1 (let b = websocket_monitor 0 s1 (attempts sc) in
             case raised b of
               None \<Rightarrow> b
             | Some e \<Rightarrow>
                 then_do (except_Exception b)
                   (\<lambda>s2. check_new_transactions s2 (baseline_fetch sc) (poll_fetches sc)))" for s1
    by (auto simp: Let_def fresh_websocket_monitor fresh_then_do fresh_except_Exception
        fresh_check_new_transactions split: option.splits)
  then show ?thesis
    unfolding start_monitoring_def
    by (intro fresh_then_do fresh_check_single_update)
qed

subsection \<open>Evaluating the model on examples\<close>

lemmas eval_defs =
  reconcile_def init_def mk_tx_def get_hash_def get_lt_def is_new_def sort_by_lt_def lt_key_def
  get_lt_or_0_def format_transaction_def advance_def returns_def raises_def then_do_def
  int_of_str_def strip_def py_isspace_def unsigned_def digit_of_def hash_of_def lt_of_def
  above_def exceeds_def except_Exception_def get_transactions_history_def
  fetch_and_reconcile_def check_single_update_def poll_cycle_def seed_def
  check_new_transactions_def session_def max_retries_def start_monitoring_def main_def
  well_formed_def wm_ok_def lt_int_def Let_def

subsection \<open>No transaction is delivered twice\<close>

text \<open>
  C1. In a whole run of the program, from any tracker state and for any responses of
  the network, the hashes of the transactions delivered are pairwise different, and
  none of them was in the seen-set at the start; the same holds for the polling loop
  alone and for a single reconcile, also when a page holds the same hash twice. A
  record delivered by a reconcile is a record of the page whose hash was not in the
  seen-set and for which the watermark was unset or below its logical time. Hashes are
  added to the seen-set while the page is classified, so a hash delivered is never
  classified as new again.
\<close>

theorem no_duplicate_delivery:
  "distinct (map hash_of (delivered (start_monitoring s sc))) \<and>
   hash_of ` set (delivered (start_monitoring s sc)) \<inter> processed_hashes s = {} \<and>
   distinct (map hash_of (delivered (poll_loop s rs))) \<and>
   hash_of ` set (delivered (poll_loop s rs)) \<inter> processed_hashes s = {} \<and>
   distinct (map hash_of (delivered (reconcile s page))) \<and>
   (\<forall>t\<in>set (delivered (reconcile s page)).
      t \<in> set page \<and> hash_of t \<notin> processed_hashes s \<and> above s t)"
proof -
  have 1: "fresh s (start_monitoring s sc)" by (rule fresh_start_monitoring)
  have 2: "fresh s (poll_loop s rs)" by (rule fresh_poll_loop)
  from 1 have "hash_of ` set (delivered (start_monitoring s sc)) \<inter> processed_hashes s = {}"
    unfolding fresh_def by blast
  moreover from 2 have "hash_of ` set (delivered (poll_loop s rs)) \<inter> processed_hashes s = {}"
    unfolding fresh_def by blast
  moreover from 1 have "distinct (map hash_of (delivered (start_monitoring s sc)))"
    by (simp add: fresh_def)
  moreover from 2 have "distinct (map hash_of (delivered (poll_loop s rs)))"
    by (simp add: fresh_def)
  ultimately show ?thesis
    using reconcile_delivered[of s page] by simp
qed

lemma example_reconcile_twice:
  "delivered (reconcile init [mk_tx ''a'' ''100'', mk_tx ''a'' ''100'']) = [mk_tx ''a'' ''100'']"
  by (simp add: eval_defs)

lemma example_run:
  "delivered (main example_script) =
     [mk_tx ''a'' ''100'', mk_tx ''b'' ''101'', mk_tx ''c'' ''102'', mk_tx ''d'' ''103'']"
  by (simp add: eval_defs example_script_def)

theorem no_duplicate_delivery_witness:
  "delivered (start_monitoring init example_script) =
     [mk_tx ''a'' ''100'', mk_tx ''b'' ''101'', mk_tx ''c'' ''102'', mk_tx ''d'' ''103''] \<and>
   distinct (map hash_of (delivered (start_monitoring init example_script))) \<and>
   mk_tx ''a'' ''100'' \<in> set (delivered (reconcile init [mk_tx ''a'' ''100'', mk_tx ''a'' ''100''])) \<and>
   distinct (map hash_of (delivered (reconcile init [mk_tx ''a'' ''100'', mk_tx ''a'' ''100'']))) \<and>
   hash_of (mk_tx ''a'' ''100'') \<notin> processed_hashes init \<and>
   above init (mk_tx ''a'' ''100'')"
  using no_duplicate_delivery[of init example_script "[]" "[mk_tx ''a'' ''100'', mk_tx ''a'' ''100'']"]
    example_reconcile_twice example_run
  by (simp add: main_def)

subsection \<open>Well-formed pages\<close>

lemma truthy_hash_of:
  "truthy (hash_of t) \<Longrightarrow> get_hash t = Inr (hash_of t) \<and> get_lt t = Inr (lt_of t)"
  by (auto simp: hash_of_def lt_of_def get_hash_def get_lt_def split: tid.splits)

lemma well_formed_key:
  "well_formed t \<Longrightarrow> lt_key t = Inr (lt_int t) \<and> py_int (lt_of t) = Inr (lt_int t)"
proof -
  assume w: "well_formed t"
  then have g: "get_lt t = Inr (lt_of t)" and tr: "truthy (lt_of t)"
    by (simp_all add: well_formed_def truthy_hash_of)
  from w obtain n where n: "py_int (lt_of t) = Inr n"
    by (cases "py_int (lt_of t)") (auto simp: well_formed_def)
  then have "lt_int t = n" by (simp add: lt_int_def)
  with n lt_key_truthy[OF g tr] show ?thesis by simp
qed

lemma wm_ok_cases:
  assumes "wm_ok s"
  obtains (Unset) "last_lt s = JNull" | (Set) b where "last_lt s \<noteq> JNull" "py_int (last_lt s) = Inr b"
  using assms by (cases "py_int (last_lt s)") (auto simp: wm_ok_def)

lemma is_new_total:
  assumes "wm_ok s" "py_int l = Inr a"
  shows "\<exists>b. is_new s h l = Inr b"
  using assms(1)
  by (cases rule: wm_ok_cases) (auto simp: is_new_def assms(2))

text \<open>On a page of well-formed records the classification loop finishes.\<close>

lemma classify_total:
  "\<forall>t\<in>set p. well_formed t \<Longrightarrow> wm_ok s \<Longrightarrow> \<exists>s' new. classify s p = (s', Inr new)"
proof (induction p arbitrary: s)
  case Nil
  show ?case by simp
next
  case (Cons t ts)
  from Cons.prems have w: "well_formed t" by simp
  then have h: "get_hash t = Inr (hash_of t)" and l: "get_lt t = Inr (lt_of t)"
    by (simp_all add: well_formed_def truthy_hash_of)
  from well_formed_key[OF w] have k: "py_int (lt_of t) = Inr (lt_int t)" by simp
  from is_new_total[OF Cons.prems(2) k] obtain b where b: "is_new s (hash_of t) (lt_of t) = Inr b"
    by blast
  let ?s1 = "s\<lparr>processed_hashes := insert (hash_of t) (processed_hashes s)\<rparr>"
  have ok1: "wm_ok ?s1" using Cons.prems(2) by (simp add: wm_ok_def)
  from Cons.prems(1) have wts: "\<forall>u\<in>set ts. well_formed u" by simp
  show ?case
  proof (cases b)
    case True
    from Cons.IH[OF wts ok1] obtain s' new where "classify ?s1 ts = (s', Inr new)" by blast
    with h l b True show ?thesis by simp
  next
    case False
    from Cons.IH[OF wts Cons.prems(2)] obtain s' new where "classify s ts = (s', Inr new)" by blast
    with h l b False show ?thesis by simp
  qed
qed

text \<open>
  Every record of the page that passes the test on the state at the start has its hash
  among the new ones: the first such record of that hash is taken.
\<close>

lemma classify_complete:
  "classify s p = (s', Inr new) \<Longrightarrow> t \<in> set p \<Longrightarrow> truthy (hash_of t) \<Longrightarrow>
     hash_of t \<notin> processed_hashes s \<Longrightarrow> above s t \<Longrightarrow> hash_of t \<in> hash_of ` set new"
proof (induction p arbitrary: s s' new)
  case Nil
  then show ?case by simp
next
  case (Cons u us)
  show ?case
  proof (cases "get_hash u")
    case (Inl e)
    with Cons.prems(1) show ?thesis by simp
  next
    case h: (Inr h)
    show ?thesis
    proof (cases "get_lt u")
      case (Inl e)
      with Cons.prems(1) h show ?thesis by simp
    next
      case l: (Inr l)
      have hu: "hash_of u = h" using h by (simp add: hash_of_def)
      have lu: "lt_of u = l" using l by (simp add: lt_of_def)
      show ?thesis
      proof (cases "is_new s h l")
        case (Inl e)
        with Cons.prems(1) h l show ?thesis by simp
      next
        case (Inr b)
        show ?thesis
        proof (cases b)
          case False
          with Cons.prems(1) h l Inr have c: "classify s us = (s', Inr new)" by simp
          have "t \<noteq> u"
          proof
            assume "t = u"
            with Cons.prems(3,4,5) hu lu have "is_new s h l = Inr True"
              by (simp add: is_new_True above_def)
            with Inr False show False by simp
          qed
          with Cons.prems(2) have "t \<in> set us" by simp
          from Cons.IH[OF c this Cons.prems(3,4,5)] show ?thesis .
        next
          case True
          let ?s1 = "s\<lparr>processed_hashes := insert h (processed_hashes s)\<rparr>"
          from Cons.prems(1) h l Inr True obtain new' where
            c: "classify ?s1 us = (s', Inr new')" and n: "new = u # new'"
            by (cases "classify ?s1 us"; cases "snd (classify ?s1 us)") auto
          show ?thesis
          proof (cases "hash_of t = h")
            case True
            with n hu show ?thesis by simp
          next
            case False
            with Cons.prems(2) hu have tin: "t \<in> set us" by auto
            have "hash_of t \<notin> processed_hashes ?s1" using False Cons.prems(4) by simp
            moreover have "above ?s1 t" using Cons.prems(5) by simp
            ultimately have "hash_of t \<in> hash_of ` set new'"
              using Cons.IH[OF c tin Cons.prems(3)] by blast
            with n show ?thesis by simp
          qed
        qed
      qed
    qed
  qed
qed

lemma advance_total:
  assumes "wm_ok s" "truthy l \<longrightarrow> (\<exists>a. py_int l = Inr a)"
  shows "\<exists>s'. advance s l = Inr s' \<and> wm_ok s'"
  using assms(1)
proof (cases rule: wm_ok_cases)
  case Unset
  with assms(2) show ?thesis by (auto simp: advance_def wm_ok_def)
next
  case (Set b)
  with assms show ?thesis by (auto simp: advance_def wm_ok_def)
qed

text \<open>
  The delivery loop delivers every record when each can be formatted and has a sort
  key; the watermark comparison cannot raise then.
\<close>

lemma deliver_total:
  "\<forall>t\<in>set ts. displayable t \<and> (\<exists>k. lt_key t = Inr k) \<Longrightarrow> wm_ok s \<Longrightarrow>
     delivered (deliver s ts) = ts \<and> raised (deliver s ts) = None"
proof (induction ts arbitrary: s)
  case Nil
  show ?case by simp
next
  case (Cons t ts)
  from Cons.prems(1) have d: "displayable t" and k: "\<exists>k. lt_key t = Inr k" by simp_all
  from k have g: "get_lt t = Inr (lt_of t)"
    by (auto simp: lt_key_def get_lt_or_0_def get_lt_def lt_of_def split: tid.splits)
  have "truthy (lt_of t) \<longrightarrow> (\<exists>a. py_int (lt_of t) = Inr a)"
    using k lt_key_truthy[OF g] by (metis)
  from advance_total[OF Cons.prems(2) this] obtain s' where
    a: "advance s (lt_of t) = Inr s'" and ok: "wm_ok s'" by blast
  from Cons.prems(1) have "\<forall>u\<in>set ts. displayable u \<and> (\<exists>k. lt_key u = Inr k)" by simp
  from Cons.IH[OF this ok] have "delivered (deliver s' ts) = ts" "raised (deliver s' ts) = None"
    by simp_all
  with d g a show ?case
    by (simp add: format_transaction_def then_do_def Let_def)
qed

text \<open>
  A reconcile of a page of well-formed records returns, and delivers exactly the records
  classified as new.
\<close>

lemma reconcile_well_formed:
  assumes wf: "\<forall>t\<in>set page. well_formed t" and ok: "wm_ok s"
  shows "\<exists>s1 new. classify s page = (s1, Inr new) \<and> raised (reconcile s page) = None \<and>
           mset (delivered (reconcile s page)) = mset new"
proof -
  from classify_total[OF wf ok] obtain s1 new where c: "classify s page = (s1, Inr new)" by blast
  from classify_new[OF c] have sub: "set new \<subseteq> set page" by auto
  show ?thesis
  proof (cases "new = []")
    case True
    with c show ?thesis by (simp add: reconcile_def)
  next
    case False
    have keys: "\<forall>t\<in>set new. \<exists>k. lt_key t = Inr k"
      using sub wf well_formed_key by blast
    from sort_by_lt_total[OF keys] obtain sorted_new where s: "sort_by_lt new = Inr sorted_new"
      by blast
    from sort_by_lt_Inr(1)[OF s] have m: "mset sorted_new = mset new" .
    then have ss: "set sorted_new = set new" by (rule mset_eq_setD)
    have ok1: "wm_ok s1" using ok classify_last_lt[of s page] c by (simp add: wm_ok_def)
    have "\<forall>t\<in>set sorted_new. displayable t \<and> (\<exists>k. lt_key t = Inr k)"
      using ss sub wf keys by (auto simp: well_formed_def)
    from deliver_total[OF this ok1] c s False m show ?thesis
      by (simp add: reconcile_def)
  qed
qed

subsection \<open>Pages of processable records\<close>

lemma well_formed_processable: "well_formed t \<Longrightarrow> processable t"
  by (simp add: well_formed_def processable_def)





subsection \<open>A reconcile reports exactly the new records\<close>


lemma example_reconcile_new:
  "reconcile \<lparr>last_lt = JStr ''100'', processed_hashes = {JStr ''a''}\<rparr>
     [mk_tx ''c'' ''102'', mk_tx ''b'' ''101'', mk_tx ''a'' ''100'', mk_tx ''z'' ''99''] =
   \<lparr>state = \<lparr>last_lt = JStr ''102'', processed_hashes = {JStr ''b'', JStr ''c'', JStr ''a''}\<rparr>,
    delivered = [mk_tx ''b'' ''101'', mk_tx ''c'' ''102''], raised = None\<rparr>"
  by (simp add: eval_defs)



subsection \<open>The order of delivery\<close>

lemma classify_subseq: "classify s p = (s', Inr new) \<Longrightarrow> subseq new p"
proof (induction p arbitrary: s s' new)
  case Nil
  then show ?case by simp
next
  case (Cons t ts)
  show ?case
  proof (cases "get_hash t")
    case (Inl e)
    with Cons.prems show ?thesis by simp
  next
    case h: (Inr h)
    show ?thesis
    proof (cases "get_lt t")
      case (Inl e)
      with Cons.prems h show ?thesis by simp
    next
      case l: (Inr l)
      show ?thesis
      proof (cases "is_new s h l")
        case (Inl e)
        with Cons.prems h l show ?thesis by simp
      next
        case (Inr b)
        show ?thesis
        proof (cases b)
          case False
          with Cons.prems h l Inr have "classify s ts = (s', Inr new)" by simp
          from Cons.IH[OF this] show ?thesis by (rule list_emb_Cons)
        next
          case True
          let ?s1 = "s\<lparr>processed_hashes := insert h (processed_hashes s)\<rparr>"
          from Cons.prems h l Inr True obtain new' where
            c: "classify ?s1 ts = (s', Inr new')" and n: "new = t # new'"
            by (cases "classify ?s1 ts"; cases "snd (classify ?s1 ts)") auto
          from Cons.IH[OF c] n show ?thesis by simp
        qed
      qed
    qed
  qed
qed

lemma well_formed_key_int: "well_formed t \<Longrightarrow> key_int t = lt_int t"
  using well_formed_key[of t] by (simp add: key_int_def)

text \<open>
  What a reconcile delivers is in non-decreasing order of the sort key, and the records
  delivered with one key are in the order of the page.
\<close>

lemma reconcile_order:
  "sorted (map key_int (delivered (reconcile s page))) \<and>
   subseq (filter (\<lambda>t. key_int t = k) (delivered (reconcile s page))) page"
proof (cases s page rule: reconcile_cases)
  case (Raised s1 e)
  then show ?thesis by simp
next
  case (Nothing s1)
  then show ?thesis by simp
next
  case (SortRaised s1 new e)
  then show ?thesis by simp
next
  case (Delivered s1 new sorted_new)
  let ?out = "delivered (deliver s1 sorted_new)"
  obtain rest where r: "sorted_new = ?out @ rest"
    using deliver_prefix by blast
  from sort_by_lt_Inr[OF Delivered(3)] have
    keys: "\<forall>t\<in>set new. \<exists>k. lt_key t = Inr k"
    and srt: "sorted (map (\<lambda>t. projr (lt_key t)) sorted_new)"
    and stab: "filter (\<lambda>t. lt_key t = Inr k) sorted_new = filter (\<lambda>t. lt_key t = Inr k) new"
    and m: "mset sorted_new = mset new"
    by auto
  from m have ss: "set sorted_new = set new" by (rule mset_eq_setD)
  have ki: "key_int t = projr (lt_key t)" "(key_int t = k) = (lt_key t = Inr k)"
    if "t \<in> set sorted_new" for t
    using that keys ss by (auto simp: key_int_def)
  have "map key_int sorted_new = map (\<lambda>t. projr (lt_key t)) sorted_new"
    by (rule map_cong) (simp_all add: ki(1))
  with srt have "sorted (map key_int sorted_new)" by (simp only:)
  then have "sorted (map key_int ?out @ map key_int rest)"
    using r by (metis map_append)
  then have 1: "sorted (map key_int ?out)"
    by (simp add: sorted_append)
  have "filter (\<lambda>t. key_int t = k) sorted_new = filter (\<lambda>t. lt_key t = Inr k) sorted_new"
    using ki(2) by (auto intro!: filter_cong)
  also have "\<dots> = filter (\<lambda>t. lt_key t = Inr k) new" by (rule stab)
  finally have f: "filter (\<lambda>t. key_int t = k) sorted_new = filter (\<lambda>t. lt_key t = Inr k) new" .
  have "filter (\<lambda>t. key_int t = k) sorted_new
      = filter (\<lambda>t. key_int t = k) ?out @ filter (\<lambda>t. key_int t = k) rest"
    using r by (metis filter_append)
  then have "subseq (filter (\<lambda>t. key_int t = k) ?out) (filter (\<lambda>t. key_int t = k) sorted_new)"
    by (simp add: subseq_rev_drop_many)
  with f have "subseq (filter (\<lambda>t. key_int t = k) ?out) (filter (\<lambda>t. lt_key t = Inr k) new)"
    by simp
  moreover have "subseq (filter (\<lambda>t. lt_key t = Inr k) new) new" by simp
  moreover have "subseq new page" using classify_subseq[OF Delivered(1)] .
  ultimately have 2: "subseq (filter (\<lambda>t. key_int t = k) ?out) page"
    by (meson subseq_order.order_trans)
  from 1 2 Delivered(4) show ?thesis by simp
qed

text \<open>
  C3, as the code has it. What a reconcile delivers is sorted in non-decreasing order
  of the integer sort key, whatever the order of the page; records delivered with the
  same key appear in the order they have in the page (the sort is stable and never
  looks at the hash). On a page of well-formed records the key is the logical time,
  and the reconcile returns without exception, also when logical times repeat.
\<close>

theorem delivery_sorted_ties_in_page_order:
  "sorted (map key_int (delivered (reconcile s page))) \<and>
   subseq (filter (\<lambda>t. key_int t = k) (delivered (reconcile s page))) page \<and>
   ((\<forall>t\<in>set page. well_formed t) \<and> wm_ok s \<longrightarrow>
      raised (reconcile s page) = None \<and>
      sorted (map lt_int (delivered (reconcile s page))))"
proof -
  have "raised (reconcile s page) = None \<and> sorted (map lt_int (delivered (reconcile s page)))"
    if wf: "\<forall>t\<in>set page. well_formed t" and ok: "wm_ok s"
  proof -
    from reconcile_well_formed[OF wf ok] have r: "raised (reconcile s page) = None" by blast
    have "set (delivered (reconcile s page)) \<subseteq> set page"
      using reconcile_delivered[of s page] by blast
    then have "\<And>t. t \<in> set (delivered (reconcile s page)) \<Longrightarrow> lt_int t = key_int t"
      using wf well_formed_key_int by auto
    then have "map lt_int (delivered (reconcile s page)) = map key_int (delivered (reconcile s page))"
      by (intro map_cong) simp_all
    moreover have "sorted (map key_int (delivered (reconcile s page)))"
      using reconcile_order[of s page k] by (rule conjunct1)
    ultimately have "sorted (map lt_int (delivered (reconcile s page)))" by (simp only:)
    with r show ?thesis by (intro conjI)
  qed
  with reconcile_order[of s page k] show ?thesis by blast
qed

lemma example_spec_order:
  "reconcile init [mk_tx ''a'' ''105'', mk_tx ''b'' ''103'', mk_tx ''c'' ''104''] =
   \<lparr>state = \<lparr>last_lt = JStr ''105'', processed_hashes = {JStr ''c'', JStr ''b'', JStr ''a''}\<rparr>,
    delivered = [mk_tx ''b'' ''103'', mk_tx ''c'' ''104'', mk_tx ''a'' ''105''], raised = None\<rparr>"
  by (simp add: eval_defs)

theorem delivery_sorted_ties_in_page_order_witness:
  "list_all well_formed [mk_tx ''a'' ''105'', mk_tx ''b'' ''103'', mk_tx ''c'' ''104''] \<and>
   wm_ok init \<and>
   delivered (reconcile init [mk_tx ''a'' ''105'', mk_tx ''b'' ''103'', mk_tx ''c'' ''104'']) =
     [mk_tx ''b'' ''103'', mk_tx ''c'' ''104'', mk_tx ''a'' ''105''] \<and>
   raised (reconcile init [mk_tx ''a'' ''105'', mk_tx ''b'' ''103'', mk_tx ''c'' ''104'']) = None \<and>
   sorted (map lt_int
     (delivered (reconcile init [mk_tx ''a'' ''105'', mk_tx ''b'' ''103'', mk_tx ''c'' ''104''])))"
proof -
  let ?p = "[mk_tx ''a'' ''105'', mk_tx ''b'' ''103'', mk_tx ''c'' ''104'']"
  have wf: "\<forall>t\<in>set ?p. well_formed t" by (simp add: eval_defs)
  have ok: "wm_ok init" by (simp add: eval_defs)
  from delivery_sorted_ties_in_page_order[of init ?p 0] wf ok
  have "raised (reconcile init ?p) = None \<and> sorted (map lt_int (delivered (reconcile init ?p)))"
    by blast
  moreover have "delivered (reconcile init ?p) =
      [mk_tx ''b'' ''103'', mk_tx ''c'' ''104'', mk_tx ''a'' ''105'']"
    by (simp add: example_spec_order)
  moreover have "list_all well_formed ?p" using wf by (simp only: list_all_iff)
  ultimately show ?thesis using ok by (intro conjI) simp_all
qed

text \<open>
  C3 as stated fails: two new records of equal logical time are delivered in the order
  of the page, here with the greater hash first, and the same two records in the other
  order of the page are delivered in the other order.
\<close>

theorem tie_not_broken_by_hash:
  "delivered (reconcile init [mk_tx ''b'' ''100'', mk_tx ''a'' ''100'']) =
     [mk_tx ''b'' ''100'', mk_tx ''a'' ''100''] \<and>
   \<not> spec_order (delivered (reconcile init [mk_tx ''b'' ''100'', mk_tx ''a'' ''100''])) \<and>
   delivered (reconcile init [mk_tx ''a'' ''100'', mk_tx ''b'' ''100'']) =
     [mk_tx ''a'' ''100'', mk_tx ''b'' ''100'']"
  by (simp add: eval_defs spec_order_def hash_str_def)

subsection \<open>The watermark\<close>

lemma reconcile_wm_le: "wm_le (last_lt s) (last_lt (state (reconcile s page)))"
proof (cases s page rule: reconcile_cases)
  case (Raised s1 e)
  with classify_last_lt[of s page] show ?thesis by simp
next
  case (Nothing s1)
  with classify_last_lt[of s page] show ?thesis by simp
next
  case (SortRaised s1 new e)
  with classify_last_lt[of s page] show ?thesis by simp
next
  case (Delivered s1 new sorted_new)
  from classify_last_lt[of s page] Delivered(1) have "last_lt s1 = last_lt s" by simp
  with deliver_wm_le[of s1 sorted_new] Delivered(4) show ?thesis by simp
qed

lemma then_do_wm_le:
  assumes "wm_le (last_lt s) (last_lt (state a))"
    and "\<And>s'. wm_le (last_lt s') (last_lt (state (f s')))"
  shows "wm_le (last_lt s) (last_lt (state (then_do a f)))"
proof (cases "raised a")
  case None
  from assms(1) assms(2)[of "state a"] have "wm_le (last_lt s) (last_lt (state (f (state a))))"
    by (rule wm_le_trans)
  with None show ?thesis by (simp add: then_do_None)
next
  case (Some e)
  with assms(1) show ?thesis by (simp add: then_do_Some)
qed

lemma fetch_and_reconcile_wm_le: "wm_le (last_lt s) (last_lt (state (fetch_and_reconcile s r)))"
  by (simp add: fetch_and_reconcile_def reconcile_wm_le split: sum.splits)

lemma poll_cycle_wm_le: "wm_le (last_lt s) (last_lt (state (poll_cycle s r)))"
  by (simp add: poll_cycle_def fetch_and_reconcile_wm_le)

lemma check_single_update_wm_le: "wm_le (last_lt s) (last_lt (state (check_single_update s r)))"
  by (simp add: check_single_update_def fetch_and_reconcile_wm_le)

lemma poll_loop_wm_le: "wm_le (last_lt s) (last_lt (state (poll_loop s rs)))"
  by (induction rs arbitrary: s) (simp_all add: then_do_wm_le poll_cycle_wm_le)

lemma listen_wm_le: "wm_le (last_lt s) (last_lt (state (listen s ms)))"
proof (induction ms arbitrary: s)
  case Nil
  show ?case by simp
next
  case (Cons m ms)
  show ?case
    by (cases m) (simp_all add: Cons.IH then_do_wm_le check_single_update_wm_le)
qed

text \<open>
  After the delivery loop the watermark is at least the logical time of every record
  delivered, and it is the watermark from before or the \<^verbatim>\<open>lt\<close> of a record delivered.
\<close>

lemma deliver_bounds:
  assumes "\<forall>t\<in>set ts. \<exists>k. lt_key t = Inr k"
    and "\<forall>t\<in>set (delivered (deliver s ts)). truthy (lt_of t)"
    and "wm_ok s"
  shows "(\<forall>t\<in>set (delivered (deliver s ts)).
            \<exists>m. py_int (last_lt (state (deliver s ts))) = Inr m \<and> lt_int t \<le> m) \<and>
         (last_lt (state (deliver s ts)) = last_lt s \<or>
          (\<exists>t\<in>set (delivered (deliver s ts)). last_lt (state (deliver s ts)) = lt_of t))"
  using assms
proof (induction ts arbitrary: s)
  case Nil
  show ?case by simp
next
  case (Cons t ts)
  show ?case
  proof (cases "format_transaction t")
    case (Inl e)
    then show ?thesis by simp
  next
    case f: (Inr u)
    from Cons.prems(1) obtain a where ka: "lt_key t = Inr a" by auto
    then have g: "get_lt t = Inr (lt_of t)"
      by (auto simp: lt_key_def get_lt_or_0_def get_lt_def lt_of_def split: tid.splits)
    have "truthy (lt_of t) \<longrightarrow> (\<exists>a. py_int (lt_of t) = Inr a)"
      using ka lt_key_truthy[OF g] by metis
    from advance_total[OF Cons.prems(3) this] obtain s1 where
      Inr: "advance s (lt_of t) = Inr s1" and ok1: "wm_ok s1" by blast
    show ?thesis
    proof -
      let ?d = "deliver s1 ts"
      have unfold: "delivered (deliver s (t # ts)) = t # delivered ?d"
        "state (deliver s (t # ts)) = state ?d"
        using f g Inr by (simp_all add: then_do_def Let_def)
      from Cons.prems(2) unfold have tr: "truthy (lt_of t)"
        and trs: "\<forall>u\<in>set (delivered ?d). truthy (lt_of u)" by simp_all
      from ka g tr have pa: "py_int (lt_of t) = Inr a" using lt_key_truthy by metis
      then have la: "lt_int t = a" by (simp add: lt_int_def)
      from Cons.prems(1) have keys: "\<forall>u\<in>set ts. \<exists>k. lt_key u = Inr k" by simp
      from Cons.IH[OF keys trs ok1] have
        ih1: "\<forall>u\<in>set (delivered ?d). \<exists>m. py_int (last_lt (state ?d)) = Inr m \<and> lt_int u \<le> m"
        and ih2: "last_lt (state ?d) = last_lt s1 \<or>
                  (\<exists>u\<in>set (delivered ?d). last_lt (state ?d) = lt_of u)"
        by simp_all
      from Inr tr pa obtain m1 where m1: "py_int (last_lt s1) = Inr m1" "a \<le> m1"
        and s1: "last_lt s1 = lt_of t \<or> last_lt s1 = last_lt s"
        by (auto simp: advance_def split: if_splits sum.splits)
      from m1(1) have nn: "last_lt s1 \<noteq> JNull" by auto
      from deliver_wm_le[of s1 ts] nn m1 obtain m where
        m: "py_int (last_lt (state ?d)) = Inr m" "a \<le> m"
        by (auto simp: wm_le_def split: sum.splits)
      have "\<forall>u\<in>set (t # delivered ?d). \<exists>m. py_int (last_lt (state ?d)) = Inr m \<and> lt_int u \<le> m"
        using ih1 m la by simp
      moreover have "last_lt (state ?d) = last_lt s \<or>
          (\<exists>u\<in>set (t # delivered ?d). last_lt (state ?d) = lt_of u)"
        using ih2 s1 by auto
      ultimately show ?thesis by (simp only: unfold)
    qed
  qed
qed

text \<open>Nothing happens when no record of the page can be new.\<close>

lemma classify_none:
  "\<forall>t\<in>set p. \<not> truthy (hash_of t) \<or> hash_of t \<in> processed_hashes s \<or> \<not> above s t \<Longrightarrow>
     fst (classify s p) = s \<and> (isl (snd (classify s p)) \<or> snd (classify s p) = Inr [])"
proof (induction p)
  case Nil
  show ?case by simp
next
  case (Cons t ts)
  show ?case
  proof (cases "get_hash t")
    case (Inl e)
    then show ?thesis by simp
  next
    case h: (Inr h)
    show ?thesis
    proof (cases "get_lt t")
      case (Inl e)
      with h show ?thesis by simp
    next
      case l: (Inr l)
      have hu: "hash_of t = h" using h by (simp add: hash_of_def)
      have lu: "lt_of t = l" using l by (simp add: lt_of_def)
      show ?thesis
      proof (cases "is_new s h l")
        case (Inl e)
        with h l show ?thesis by simp
      next
        case (Inr b)
        have "\<not> b"
        proof
          assume b
          with Inr have "truthy h" "h \<notin> processed_hashes s" "above s t"
            by (simp_all add: is_new_True above_def lu)
          with Cons.prems hu show False by simp
        qed
        with h l Inr Cons show ?thesis by simp
      qed
    qed
  qed
qed

lemma reconcile_none:
  assumes "\<forall>t\<in>set page. \<not> truthy (hash_of t) \<or> hash_of t \<in> processed_hashes s \<or> \<not> above s t"
  shows "delivered (reconcile s page) = [] \<and> state (reconcile s page) = s"
proof -
  from classify_none[OF assms] show ?thesis
    by (cases "classify s page"; cases "snd (classify s page)") (auto simp: reconcile_def)
qed

lemma reconcile_Nil_last_lt:
  "delivered (reconcile s page) = [] \<Longrightarrow> last_lt (state (reconcile s page)) = last_lt s"
proof (cases s page rule: reconcile_cases)
  case (Raised s1 e)
  with classify_last_lt[of s page] show ?thesis by simp
next
  case (Nothing s1)
  with classify_last_lt[of s page] show ?thesis by simp
next
  case (SortRaised s1 new e)
  with classify_last_lt[of s page] show ?thesis by simp
next
  case (Delivered s1 new sorted_new)
  assume "delivered (reconcile s page) = []"
  with Delivered(4) have "state (deliver s1 sorted_new) = s1"
    by (simp add: deliver_Nil_state)
  with classify_last_lt[of s page] Delivered(1,4) show ?thesis by simp
qed

text \<open>
  After a reconcile that delivers records, all with a non-empty \<^verbatim>\<open>lt\<close>, the watermark
  is the greatest logical time delivered.
\<close>

lemma reconcile_max:
  assumes ne: "delivered (reconcile s page) \<noteq> []"
    and tr: "\<forall>t\<in>set (delivered (reconcile s page)). truthy (lt_of t)"
  shows "py_int (last_lt (state (reconcile s page))) =
           Inr (Max (lt_int ` set (delivered (reconcile s page))))"
proof (cases s page rule: reconcile_cases)
  case (Raised s1 e)
  with ne show ?thesis by simp
next
  case (Nothing s1)
  with ne show ?thesis by simp
next
  case (SortRaised s1 new e)
  with ne show ?thesis by simp
next
  case (Delivered s1 new sorted_new)
  let ?d = "deliver s1 sorted_new"
  let ?D = "delivered ?d"
  from Delivered(4) ne tr have ne': "?D \<noteq> []" and tr': "\<forall>t\<in>set ?D. truthy (lt_of t)"
    by simp_all
  from sort_by_lt_Inr(1,2)[OF Delivered(3)] have keys: "\<forall>t\<in>set sorted_new. \<exists>k. lt_key t = Inr k"
    by (metis mset_eq_setD)
  from ne' obtain t0 where t0: "t0 \<in> set ?D" by (cases ?D) auto
  have ls: "last_lt s1 = last_lt s" using classify_last_lt[of s page] Delivered(1) by simp
  have ab: "above s t0"
    using reconcile_delivered[of s page] t0 Delivered(4) by simp
  then have ok1: "wm_ok s1"
    using ls by (auto simp: above_def exceeds_def wm_ok_def split: sum.splits)
  from deliver_bounds[OF keys tr' ok1] have
    ub: "\<forall>t\<in>set ?D. \<exists>m. py_int (last_lt (state ?d)) = Inr m \<and> lt_int t \<le> m"
    and src: "last_lt (state ?d) = last_lt s1 \<or> (\<exists>t\<in>set ?D. last_lt (state ?d) = lt_of t)"
    by simp_all
  from ub t0 obtain m where m: "py_int (last_lt (state ?d)) = Inr m" by blast
  with ub have le: "\<forall>t\<in>set ?D. lt_int t \<le> m" by auto
  have "last_lt (state ?d) \<noteq> last_lt s1"
  proof
    assume eq: "last_lt (state ?d) = last_lt s1"
    with m ls have pm: "py_int (last_lt s) = Inr m" by simp
    then have "last_lt s \<noteq> JNull" by auto
    with ab pm have "m < lt_int t0"
      by (auto simp: above_def exceeds_def lt_int_def split: sum.splits)
    with le t0 show False by fastforce
  qed
  with src obtain t1 where t1: "t1 \<in> set ?D" "last_lt (state ?d) = lt_of t1" by blast
  with m have "lt_int t1 = m" by (simp add: lt_int_def)
  with t1(1) have "m \<in> lt_int ` set ?D" by force
  with le have "Max (lt_int ` set ?D) = m"
    by (intro Max_eqI) auto
  with m Delivered(4) show ?thesis by simp
qed

text \<open>
  C4, as the code has it. Across a reconcile, across any number of polling cycles and
  across any number of websocket messages the watermark never decreases: it stays, or
  it moves from unset to a value, or from an integer to a greater one. After a
  reconcile that delivers records, all with a non-empty \<^verbatim>\<open>lt\<close>, the watermark is the
  greatest logical time delivered. A reconcile that delivers nothing leaves the
  watermark as it was; a page whose records all have an empty hash, a hash already
  seen or a logical time not above the watermark delivers nothing and leaves the
  whole state as it was.
\<close>

theorem watermark_under_reconcile:
  "wm_le (last_lt s) (last_lt (state (reconcile s page))) \<and>
   wm_le (last_lt s) (last_lt (state (poll_loop s rs))) \<and>
   wm_le (last_lt s) (last_lt (state (listen s ms))) \<and>
   (delivered (reconcile s page) \<noteq> [] \<and>
    (\<forall>t\<in>set (delivered (reconcile s page)). truthy (lt_of t)) \<longrightarrow>
      py_int (last_lt (state (reconcile s page))) =
        Inr (Max (lt_int ` set (delivered (reconcile s page))))) \<and>
   (delivered (reconcile s' page') = [] \<longrightarrow>
      last_lt (state (reconcile s' page')) = last_lt s') \<and>
   ((\<forall>t\<in>set page'. \<not> truthy (hash_of t) \<or> hash_of t \<in> processed_hashes s' \<or> \<not> above s' t) \<longrightarrow>
      delivered (reconcile s' page') = [] \<and> state (reconcile s' page') = s')"
  using reconcile_wm_le[of s page] poll_loop_wm_le[of s rs] listen_wm_le[of s ms]
    reconcile_max[of s page] reconcile_Nil_last_lt[of s' page'] reconcile_none[of page' s']
  by blast

lemma example_watermark_advance:
  "reconcile \<lparr>last_lt = JStr ''100'', processed_hashes = {JStr ''a''}\<rparr>
     [mk_tx ''c'' ''120'', mk_tx ''b'' ''110'', mk_tx ''a'' ''100''] =
   \<lparr>state = \<lparr>last_lt = JStr ''120'', processed_hashes = {JStr ''b'', JStr ''c'', JStr ''a''}\<rparr>,
    delivered = [mk_tx ''b'' ''110'', mk_tx ''c'' ''120''], raised = None\<rparr>"
  by (simp add: eval_defs)

lemma example_watermark_stays:
  "reconcile \<lparr>last_lt = JStr ''120'', processed_hashes = {JStr ''b'', JStr ''c'', JStr ''a''}\<rparr>
     [mk_tx ''c'' ''120'', mk_tx ''q'' ''115'', mk_tx ''b'' ''110''] =
   \<lparr>state = \<lparr>last_lt = JStr ''120'', processed_hashes = {JStr ''b'', JStr ''c'', JStr ''a''}\<rparr>,
    delivered = [], raised = None\<rparr>"
  by (simp add: eval_defs)

theorem watermark_under_reconcile_witness:
  "delivered (reconcile \<lparr>last_lt = JStr ''100'', processed_hashes = {JStr ''a''}\<rparr>
     [mk_tx ''c'' ''120'', mk_tx ''b'' ''110'', mk_tx ''a'' ''100'']) \<noteq> [] \<and>
   list_all (\<lambda>t. truthy (lt_of t))
     (delivered (reconcile \<lparr>last_lt = JStr ''100'', processed_hashes = {JStr ''a''}\<rparr>
       [mk_tx ''c'' ''120'', mk_tx ''b'' ''110'', mk_tx ''a'' ''100''])) \<and>
   py_int (last_lt (state (reconcile \<lparr>last_lt = JStr ''100'', processed_hashes = {JStr ''a''}\<rparr>
     [mk_tx ''c'' ''120'', mk_tx ''b'' ''110'', mk_tx ''a'' ''100'']))) = Inr 120 \<and>
   Max (lt_int ` set (delivered (reconcile \<lparr>last_lt = JStr ''100'', processed_hashes = {JStr ''a''}\<rparr>
     [mk_tx ''c'' ''120'', mk_tx ''b'' ''110'', mk_tx ''a'' ''100'']))) = 120 \<and>
   list_all (\<lambda>t. \<not> truthy (hash_of t) \<or> hash_of t \<in> {JStr ''b'', JStr ''c'', JStr ''a''} \<or>
      \<not> above \<lparr>last_lt = JStr ''120'', processed_hashes = {JStr ''b'', JStr ''c'', JStr ''a''}\<rparr> t)
     [mk_tx ''c'' ''120'', mk_tx ''q'' ''115'', mk_tx ''b'' ''110''] \<and>
   delivered (reconcile \<lparr>last_lt = JStr ''120'', processed_hashes = {JStr ''b'', JStr ''c'', JStr ''a''}\<rparr>
     [mk_tx ''c'' ''120'', mk_tx ''q'' ''115'', mk_tx ''b'' ''110'']) = [] \<and>
   last_lt (state (reconcile \<lparr>last_lt = JStr ''120'', processed_hashes = {JStr ''b'', JStr ''c'', JStr ''a''}\<rparr>
     [mk_tx ''c'' ''120'', mk_tx ''q'' ''115'', mk_tx ''b'' ''110''])) = JStr ''120''"
proof -
  let ?s = "\<lparr>last_lt = JStr ''100'', processed_hashes = {JStr ''a''}\<rparr>"
  let ?p = "[mk_tx ''c'' ''120'', mk_tx ''b'' ''110'', mk_tx ''a'' ''100'']"
  let ?s' = "\<lparr>last_lt = JStr ''120'', processed_hashes = {JStr ''b'', JStr ''c'', JStr ''a''}\<rparr>"
  let ?p' = "[mk_tx ''c'' ''120'', mk_tx ''q'' ''115'', mk_tx ''b'' ''110'']"
  have d: "delivered (reconcile ?s ?p) = [mk_tx ''b'' ''110'', mk_tx ''c'' ''120'']"
    by (simp add: example_watermark_advance)
  have ne: "delivered (reconcile ?s ?p) \<noteq> []" by (simp add: d)
  have tr: "\<forall>t\<in>set (delivered (reconcile ?s ?p)). truthy (lt_of t)"
    by (simp add: d) (simp add: eval_defs)
  have hy: "\<forall>t\<in>set ?p'. \<not> truthy (hash_of t) \<or> hash_of t \<in> processed_hashes ?s' \<or> \<not> above ?s' t"
    by (simp add: eval_defs)
  have lts: "lt_int ` set (delivered (reconcile ?s ?p)) = {110, 120}"
    by (simp add: d) (simp add: eval_defs)
  have mx: "Max (lt_int ` set (delivered (reconcile ?s ?p))) = 120"
    by (simp add: lts)
  from watermark_under_reconcile[of ?s ?p "[]" "[]" ?s' ?p'] ne tr hy
  have a: "py_int (last_lt (state (reconcile ?s ?p))) =
        Inr (Max (lt_int ` set (delivered (reconcile ?s ?p))))"
    and b: "delivered (reconcile ?s' ?p') = [] \<and> state (reconcile ?s' ?p') = ?s'"
    by blast+
  from a mx have a': "py_int (last_lt (state (reconcile ?s ?p))) = Inr 120" by simp
  from b have b1: "delivered (reconcile ?s' ?p') = []"
    and b2: "last_lt (state (reconcile ?s' ?p')) = JStr ''120''" by simp_all
  from hy have hy': "list_all (\<lambda>t. \<not> truthy (hash_of t) \<or>
      hash_of t \<in> {JStr ''b'', JStr ''c'', JStr ''a''} \<or> \<not> above ?s' t) ?p'"
    by (simp only: list_all_iff tracker.simps)
  from tr have tr': "list_all (\<lambda>t. truthy (lt_of t)) (delivered (reconcile ?s ?p))"
    by (simp only: list_all_iff)
  show ?thesis
    using ne tr' a' mx hy' b1 b2 by (intro conjI)
qed

text \<open>
  C4 as stated fails for the baseline of the polling method. It assigns the watermark
  without comparing: after the first reconcile of a run has moved the watermark to
  120, a baseline page whose first record has the logical time 100 moves it back to
  100. A record that has no \<^verbatim>\<open>lt\<close> is delivered by a fresh tracker without the watermark
  being set.
\<close>

theorem seed_lowers_watermark:
  "last_lt (state (check_single_update init (ApiResult [mk_tx ''x'' ''120'']))) = JStr ''120'' \<and>
   last_lt (state (seed (state (check_single_update init (ApiResult [mk_tx ''x'' ''120''])))
      (ApiResult [mk_tx ''y'' ''100'']))) = JStr ''100'' \<and>
   \<not> wm_le (JStr ''120'') (JStr ''100'') \<and>
   last_lt (state (main \<lparr>first_fetch = ApiResult [mk_tx ''x'' ''120''], attempts = [],
      baseline_fetch = ApiResult [mk_tx ''y'' ''100''], poll_fetches = []\<rparr>)) = JStr ''100'' \<and>
   delivered (reconcile init [\<lparr>transaction_id = TidObj (Some (JStr ''a'')) None, displayable = True\<rparr>]) =
     [\<lparr>transaction_id = TidObj (Some (JStr ''a'')) None, displayable = True\<rparr>] \<and>
   last_lt (state (reconcile init
     [\<lparr>transaction_id = TidObj (Some (JStr ''a'')) None, displayable = True\<rparr>])) = JNull"
  by (simp add: eval_defs wm_le_def)

subsection \<open>The baseline, and what the start of the program does instead\<close>

lemma add_hashes_state:
  "raised (add_hashes s ts) = None \<Longrightarrow>
     last_lt (state (add_hashes s ts)) = last_lt s \<and>
     processed_hashes (state (add_hashes s ts)) =
       processed_hashes s \<union> {h. \<exists>t\<in>set ts. hash_of t = h \<and> truthy h}"
proof (induction ts arbitrary: s)
  case Nil
  show ?case by simp
next
  case (Cons t ts)
  show ?case
  proof (cases "get_hash t")
    case (Inl e)
    with Cons.prems show ?thesis by simp
  next
    case (Inr h)
    let ?s1 = "if truthy h then s\<lparr>processed_hashes := insert h (processed_hashes s)\<rparr> else s"
    have ht: "hash_of t = h" using Inr by (simp add: hash_of_def)
    from Cons.prems Inr have "raised (add_hashes ?s1 ts) = None" by simp
    from Cons.IH[OF this] have
      "last_lt (state (add_hashes ?s1 ts)) = last_lt ?s1"
      "processed_hashes (state (add_hashes ?s1 ts)) =
         processed_hashes ?s1 \<union> {h. \<exists>t\<in>set ts. hash_of t = h \<and> truthy h}"
      by simp_all
    with Inr ht show ?thesis by auto
  qed
qed

text \<open>
  The baseline of the polling method prints nothing. When it returns on a page, the
  watermark is the \<^verbatim>\<open>lt\<close> of the first record of the page, the non-empty hashes of the
  page are in the seen-set, and a reconcile of the same page right after it delivers
  nothing and changes nothing.
\<close>

lemma seed_suppresses_backlog:
  assumes "raised (seed s (ApiResult page)) = None"
  shows "delivered (seed s (ApiResult page)) = [] \<and>
    (page \<noteq> [] \<longrightarrow> last_lt (state (seed s (ApiResult page))) = lt_of (hd page)) \<and>
    processed_hashes (state (seed s (ApiResult page))) =
      processed_hashes s \<union> {h. \<exists>t\<in>set page. hash_of t = h \<and> truthy h} \<and>
    delivered (reconcile (state (seed s (ApiResult page))) page) = [] \<and>
    state (reconcile (state (seed s (ApiResult page))) page) = state (seed s (ApiResult page))"
proof (cases page)
  case Nil
  then show ?thesis
    by (simp add: seed_def get_transactions_history_def reconcile_def)
next
  case (Cons t0 rest)
  from assms Cons obtain l where l: "get_lt t0 = Inr l"
    by (cases "get_lt t0") (auto simp: seed_def get_transactions_history_def)
  let ?a = "add_hashes (s\<lparr>last_lt := l\<rparr>) page"
  have sd: "seed s (ApiResult page) = ?a"
    using Cons l by (simp add: seed_def get_transactions_history_def)
  with assms have "raised ?a = None" by simp
  from add_hashes_state[OF this] have
    w: "last_lt (state ?a) = l"
    and P: "processed_hashes (state ?a) =
        processed_hashes s \<union> {h. \<exists>t\<in>set page. hash_of t = h \<and> truthy h}"
    by simp_all
  have "\<forall>t\<in>set page. \<not> truthy (hash_of t) \<or> hash_of t \<in> processed_hashes (state ?a) \<or>
      \<not> above (state ?a) t"
    using P by auto
  from reconcile_none[OF this] have
    "delivered (reconcile (state ?a) page) = [] \<and> state (reconcile (state ?a) page) = state ?a" .
  moreover have "lt_of (hd page) = l" using Cons l by (simp add: lt_of_def)
  ultimately show ?thesis using sd w P by simp
qed

text \<open>
  C5 at the start of the program. \<^verbatim>\<open>start_monitoring\<close> does not run the baseline: its
  first step is \<^verbatim>\<open>check_single_update\<close> on a fresh tracker, which delivers every
  well-formed record of the first page as a new transaction. The baseline, run on the
  same page, delivers nothing.
\<close>

theorem startup_reports_backlog:
  "delivered (check_single_update init (ApiResult [mk_tx ''b'' ''101'', mk_tx ''a'' ''100''])) =
     [mk_tx ''a'' ''100'', mk_tx ''b'' ''101''] \<and>
   delivered (main \<lparr>first_fetch = ApiResult [mk_tx ''b'' ''101'', mk_tx ''a'' ''100''],
      attempts = [], baseline_fetch = ApiResult [mk_tx ''b'' ''101''], poll_fetches = []\<rparr>) =
     [mk_tx ''a'' ''100'', mk_tx ''b'' ''101''] \<and>
   delivered (seed init (ApiResult [mk_tx ''b'' ''101'', mk_tx ''a'' ''100''])) = []"
  by (simp add: eval_defs)

subsection \<open>A record without logical time\<close>

text \<open>
  C6 at a page with a record that has a hash and no \<^verbatim>\<open>lt\<close>, the watermark being set.
  The first record is classified as new and its hash is added; on the second,
  \<^verbatim>\<open>int(None)\<close> raises \<^verbatim>\<open>TypeError\<close>, which ends the cycle before anything is delivered.
  The hash of the first record stays in the seen-set, so the record is delivered by no
  later cycle either, not even from a page without the malformed record.
\<close>

theorem malformed_record_drops_the_page:
  "reconcile \<lparr>last_lt = JStr ''100'', processed_hashes = {}\<rparr>
     [mk_tx ''a'' ''101'', \<lparr>transaction_id = TidObj (Some (JStr ''b'')) None, displayable = True\<rparr>] =
   \<lparr>state = \<lparr>last_lt = JStr ''100'', processed_hashes = {JStr ''a''}\<rparr>,
    delivered = [], raised = Some TypeError\<rparr> \<and>
   poll_loop \<lparr>last_lt = JStr ''100'', processed_hashes = {}\<rparr>
     [ApiResult [mk_tx ''a'' ''101'',
        \<lparr>transaction_id = TidObj (Some (JStr ''b'')) None, displayable = True\<rparr>],
      ApiResult [mk_tx ''a'' ''101'',
        \<lparr>transaction_id = TidObj (Some (JStr ''b'')) None, displayable = True\<rparr>],
      ApiResult [mk_tx ''a'' ''101'']] =
   \<lparr>state = \<lparr>last_lt = JStr ''100'', processed_hashes = {JStr ''a''}\<rparr>,
    delivered = [], raised = None\<rparr> \<and>
   delivered (reconcile \<lparr>last_lt = JStr ''100'', processed_hashes = {}\<rparr> [mk_tx ''a'' ''101'']) =
     [mk_tx ''a'' ''101'']"
  by (simp add: eval_defs)

subsection \<open>The polling loop survives every cycle\<close>

lemma outcome_eta: "\<lparr>state = state a, delivered = delivered a, raised = raised a\<rparr> = (a :: outcome)"
  by simp

lemma then_do_returns: "then_do (returns s) f = f s"
  by (simp add: then_do_def returns_def Let_def)

lemma poll_cycle_raised: "raised (poll_cycle s r) = None"
  by (simp add: poll_cycle_def)

lemma poll_cycle_failed: "fetch_failed r \<Longrightarrow> poll_cycle s r = returns s"
  by (cases r)
    (simp_all add: fetch_failed_def poll_cycle_def fetch_and_reconcile_def
      get_transactions_history_def reconcile_def except_Exception_def returns_def raises_def)

lemma poll_loop_raised: "raised (poll_loop s rs) = None"
proof (induction rs arbitrary: s)
  case Nil
  show ?case by simp
next
  case (Cons r rs)
  show ?case by (simp add: then_do_None poll_cycle_raised Cons.IH)
qed

lemma then_do_assoc:
  "then_do (then_do a f) g = then_do a (\<lambda>s. then_do (f s) g)"
  by (cases "raised a"; cases "raised (f (state a))") (simp_all add: then_do_def Let_def)

lemma poll_loop_append:
  "poll_loop s (rs @ rs') = then_do (poll_loop s rs) (\<lambda>s'. poll_loop s' rs')"
proof (induction rs arbitrary: s)
  case Nil
  show ?case by (simp add: then_do_returns)
next
  case (Cons r rs)
  show ?case by (simp add: Cons.IH then_do_assoc)
qed

lemma poll_loop_skip_failed:
  "poll_loop s (filter (\<lambda>r. \<not> fetch_failed r) rs) = poll_loop s rs"
proof (induction rs arbitrary: s)
  case Nil
  show ?case by simp
next
  case (Cons r rs)
  show ?case
  proof (cases "fetch_failed r")
    case True
    then show ?thesis by (simp add: Cons.IH poll_cycle_failed then_do_returns)
  next
    case False
    then show ?thesis by (simp add: Cons.IH)
  qed
qed

text \<open>
  C7. A polling cycle whose fetch fails (the request raises, another exception leaves
  the fetch, or the service reports an error) delivers nothing and leaves the tracker
  as it was. No cycle lets an exception out, whatever the response and whatever the
  page holds, so the loop goes on to its next cycle: a run of the loop on responses
  followed by further responses is the run on the first followed by the run on the
  others, from the state reached. Fetch failures neither add nor remove a report: the
  loop delivers the same records, and ends in the same state, as on the responses
  with the failures left out; and no hash is delivered twice.
\<close>

theorem fetch_failure_never_fatal:
  "(fetch_failed r \<longrightarrow>
      delivered (poll_cycle s r) = [] \<and> state (poll_cycle s r) = s) \<and>
   raised (poll_cycle s r) = None \<and>
   raised (poll_loop s rs) = None \<and>
   state (poll_loop s (rs @ rs')) = state (poll_loop (state (poll_loop s rs)) rs') \<and>
   delivered (poll_loop s (rs @ rs')) =
     delivered (poll_loop s rs) @ delivered (poll_loop (state (poll_loop s rs)) rs') \<and>
   poll_loop s (filter (\<lambda>r. \<not> fetch_failed r) rs) = poll_loop s rs \<and>
   distinct (map hash_of (delivered (poll_loop s rs)))"
proof -
  have "fetch_failed r \<longrightarrow> delivered (poll_cycle s r) = [] \<and> state (poll_cycle s r) = s"
    by (simp add: poll_cycle_failed)
  moreover have "state (poll_loop s (rs @ rs')) = state (poll_loop (state (poll_loop s rs)) rs')"
    "delivered (poll_loop s (rs @ rs')) =
       delivered (poll_loop s rs) @ delivered (poll_loop (state (poll_loop s rs)) rs')"
    by (simp_all add: poll_loop_append then_do_None poll_loop_raised)
  moreover have "distinct (map hash_of (delivered (poll_loop s rs)))"
    using fresh_poll_loop[of s rs] by (simp add: fresh_def)
  ultimately show ?thesis
    using poll_cycle_raised poll_loop_raised poll_loop_skip_failed by blast
qed

lemma example_poll_with_failures:
  "poll_loop \<lparr>last_lt = JStr ''100'', processed_hashes = {JStr ''a''}\<rparr>
     [RequestException, ApiResult [mk_tx ''b'' ''101'', mk_tx ''a'' ''100''], Raises ValueError,
      ApiError, ApiResult [mk_tx ''c'' ''102'', mk_tx ''b'' ''101'']] =
   \<lparr>state = \<lparr>last_lt = JStr ''102'', processed_hashes = {JStr ''c'', JStr ''b'', JStr ''a''}\<rparr>,
    delivered = [mk_tx ''b'' ''101'', mk_tx ''c'' ''102''], raised = None\<rparr>"
  by (simp add: eval_defs)

theorem fetch_failure_never_fatal_witness:
  "fetch_failed (Raises ValueError) \<and>
   delivered (poll_cycle \<lparr>last_lt = JStr ''100'', processed_hashes = {JStr ''a''}\<rparr>
     (Raises ValueError)) = [] \<and>
   state (poll_cycle \<lparr>last_lt = JStr ''100'', processed_hashes = {JStr ''a''}\<rparr> (Raises ValueError)) =
     \<lparr>last_lt = JStr ''100'', processed_hashes = {JStr ''a''}\<rparr> \<and>
   delivered (poll_loop \<lparr>last_lt = JStr ''100'', processed_hashes = {JStr ''a''}\<rparr>
     [RequestException, ApiResult [mk_tx ''b'' ''101'', mk_tx ''a'' ''100''], Raises ValueError,
      ApiError, ApiResult [mk_tx ''c'' ''102'', mk_tx ''b'' ''101'']]) =
     [mk_tx ''b'' ''101'', mk_tx ''c'' ''102'']"
proof -
  have f: "fetch_failed (Raises ValueError)" by (simp add: fetch_failed_def)
  from fetch_failure_never_fatal[of "Raises ValueError"
      "\<lparr>last_lt = JStr ''100'', processed_hashes = {JStr ''a''}\<rparr>" "[]" "[]"] f
  have "delivered (poll_cycle \<lparr>last_lt = JStr ''100'', processed_hashes = {JStr ''a''}\<rparr>
          (Raises ValueError)) = [] \<and>
        state (poll_cycle \<lparr>last_lt = JStr ''100'', processed_hashes = {JStr ''a''}\<rparr>
          (Raises ValueError)) = \<lparr>last_lt = JStr ''100'', processed_hashes = {JStr ''a''}\<rparr>"
    by blast
  moreover have "delivered (poll_loop \<lparr>last_lt = JStr ''100'', processed_hashes = {JStr ''a''}\<rparr>
     [RequestException, ApiResult [mk_tx ''b'' ''101'', mk_tx ''a'' ''100''], Raises ValueError,
      ApiError, ApiResult [mk_tx ''c'' ''102'', mk_tx ''b'' ''101'']]) =
     [mk_tx ''b'' ''101'', mk_tx ''c'' ''102'']"
    by (subst example_poll_with_failures) simp
  ultimately show ?thesis
    using f by (intro conjI) simp_all
qed

subsection \<open>From the websocket monitor to polling\<close>

lemma session_ConnectFailed: "session s ConnectFailed = raises s ConnectionError"
  by (simp add: session_def)

text \<open>The monitor never returns: an exception, or the timeout, ends it.\<close>

lemma websocket_monitor_raises:
  "n < max_retries \<Longrightarrow> raised (websocket_monitor n s as) \<noteq> None"
proof (induction as arbitrary: n s)
  case Nil
  then show ?case by simp
next
  case (Cons a as)
  show ?case
  proof (cases "raised (session s a)")
    case None
    with Cons.prems Cons.IH[OF Cons.prems, of "state (session s a)"] show ?thesis
      by (simp add: Let_def then_do_None)
  next
    case (Some e)
    show ?thesis
    proof (cases "n + 1 < max_retries")
      case True
      with Some Cons.prems Cons.IH[OF True, of "state (session s a)"] show ?thesis
        by (simp add: Let_def then_do_None)
    next
      case False
      with Some Cons.prems show ?thesis by (simp add: Let_def)
    qed
  qed
qed

text \<open>As long as every attempt fails to connect, the monitor leaves the tracker alone.\<close>

lemma websocket_monitor_only_failures:
  "set as \<subseteq> {ConnectFailed} \<Longrightarrow>
     state (websocket_monitor n s as) = s \<and> delivered (websocket_monitor n s as) = []"
proof (induction as arbitrary: n)
  case Nil
  show ?case by simp
next
  case (Cons a as)
  then have a: "a = ConnectFailed" and as: "set as \<subseteq> {ConnectFailed}" by auto
  from Cons.IH[OF as] show ?case
    by (simp add: a session_ConnectFailed Let_def then_do_def)
qed

lemma websocket_monitor_three_failures:
  "websocket_monitor 0 s (ConnectFailed # ConnectFailed # ConnectFailed # rest) =
     raises s ConnectionError"
  by (simp add: session_ConnectFailed max_retries_def Let_def then_do_def raises_def)

text \<open>
  The attempts are counted: after the first and after the second failed connect the
  monitor tries again, with the count raised by one; the third failure is raised.
\<close>

lemma websocket_monitor_counts:
  "websocket_monitor 0 s (ConnectFailed # as) = websocket_monitor 1 s as \<and>
   websocket_monitor 1 s (ConnectFailed # as) = websocket_monitor 2 s as \<and>
   websocket_monitor 2 s (ConnectFailed # as) = raises s ConnectionError"
  by (simp add: session_ConnectFailed max_retries_def Let_def then_do_def raises_def
      numeral_2_eq_2)

lemma start_monitoring_polls:
  "start_monitoring s sc =
     then_do (check_single_update s (first_fetch sc))
       (\<lambda>s1. then_do (except_Exception (websocket_monitor 0 s1 (attempts sc)))
          (\<lambda>s2. check_new_transactions s2 (baseline_fetch sc) (poll_fetches sc)))"
proof -
  have key: "raised (websocket_monitor 0 s1 (attempts sc)) \<noteq> None" for s1
    by (rule websocket_monitor_raises) (simp add: max_retries_def)
  have "(let b = websocket_monitor 0 s1 (attempts sc) in
               case raised b of
                 None \<Rightarrow> b
               | Some e \<Rightarrow>
                   then_do (except_Exception b)
                     (\<lambda>s2. check_new_transactions s2 (baseline_fetch sc) (poll_fetches sc))) =
             then_do (except_Exception (websocket_monitor 0 s1 (attempts sc)))
               (\<lambda>s2. check_new_transactions s2 (baseline_fetch sc) (poll_fetches sc))" for s1
    using key[of s1]
    by (cases "raised (websocket_monitor 0 s1 (attempts sc))") (simp_all add: Let_def)
  then show ?thesis by (simp add: start_monitoring_def)
qed

lemma start_monitoring_only_failures:
  assumes "set (attempts sc) \<subseteq> {ConnectFailed}"
  shows "start_monitoring s sc =
     then_do (check_single_update s (first_fetch sc))
       (\<lambda>s1. check_new_transactions s1 (baseline_fetch sc) (poll_fetches sc))"
proof -
  have "except_Exception (websocket_monitor 0 s1 (attempts sc)) = returns s1" for s1
    using websocket_monitor_only_failures[OF assms, of 0 s1]
    by (simp add: except_Exception_def returns_def)
  then show ?thesis by (simp add: start_monitoring_polls then_do_returns)
qed

text \<open>
  What the code does do on the way to polling. The third failed connect is raised
  after a second and a third attempt were made, without a fourth attempt and without
  the tracker having been touched. Whenever every attempt made fails to connect, be
  it three times or fewer before the timeout, the run is the first update followed by
  the polling method, and attempts that would have been possible later play no part.
  The monitor never returns normally, so every run ends in the polling method, which
  never calls the monitor. When the baseline fetch of the polling method returns, no
  exception leaves the polling method, and every later page is reconciled against the
  state the earlier cycles left.
\<close>

lemma fallback_to_polling:
  "websocket_monitor 0 s (ConnectFailed # as) = websocket_monitor 1 s as \<and>
   websocket_monitor 1 s (ConnectFailed # as) = websocket_monitor 2 s as \<and>
   websocket_monitor 2 s (ConnectFailed # as) = raises s ConnectionError \<and>
   websocket_monitor 0 s (ConnectFailed # ConnectFailed # ConnectFailed # rest) =
     raises s ConnectionError \<and>
   start_monitoring s
     \<lparr>first_fetch = r1, attempts = ConnectFailed # ConnectFailed # ConnectFailed # rest,
      baseline_fetch = r0, poll_fetches = rs\<rparr> =
     then_do (check_single_update s r1) (\<lambda>s1. check_new_transactions s1 r0 rs) \<and>
   (set (attempts sc) \<subseteq> {ConnectFailed} \<longrightarrow>
      start_monitoring s sc =
        then_do (check_single_update s (first_fetch sc))
          (\<lambda>s1. check_new_transactions s1 (baseline_fetch sc) (poll_fetches sc))) \<and>
   raised (websocket_monitor 0 s as) \<noteq> None \<and>
   start_monitoring s sc =
     then_do (check_single_update s (first_fetch sc))
       (\<lambda>s1. then_do (except_Exception (websocket_monitor 0 s1 (attempts sc)))
          (\<lambda>s2. check_new_transactions s2 (baseline_fetch sc) (poll_fetches sc))) \<and>
   (raised (seed s r0) = None \<longrightarrow>
      raised (check_new_transactions s r0 (rs @ [ApiResult page])) = None \<and>
      delivered (check_new_transactions s r0 (rs @ [ApiResult page])) =
        delivered (poll_loop (state (seed s r0)) rs) @
        delivered (reconcile (state (poll_loop (state (seed s r0)) rs)) page))"
proof -
  have 1: "websocket_monitor 0 s (ConnectFailed # ConnectFailed # ConnectFailed # rest) =
      raises s ConnectionError"
    by (rule websocket_monitor_three_failures)
  have "except_Exception (websocket_monitor 0 s1
      (ConnectFailed # ConnectFailed # ConnectFailed # rest)) = returns s1" for s1
    by (subst websocket_monitor_three_failures)
      (simp add: except_Exception_def returns_def raises_def)
  then have 2: "start_monitoring s
     \<lparr>first_fetch = r1, attempts = ConnectFailed # ConnectFailed # ConnectFailed # rest,
      baseline_fetch = r0, poll_fetches = rs\<rparr> =
     then_do (check_single_update s r1) (\<lambda>s1. check_new_transactions s1 r0 rs)"
    by (simp add: start_monitoring_polls then_do_returns)
  have 3: "raised (websocket_monitor 0 s as) \<noteq> None"
    by (rule websocket_monitor_raises) (simp add: max_retries_def)
  have 4: "raised (check_new_transactions s r0 (rs @ [ApiResult page])) = None \<and>
      delivered (check_new_transactions s r0 (rs @ [ApiResult page])) =
        delivered (poll_loop (state (seed s r0)) rs) @
        delivered (reconcile (state (poll_loop (state (seed s r0)) rs)) page)"
    if sd: "raised (seed s r0) = None"
  proof -
    have "poll_loop s' [ApiResult page] = except_Exception (reconcile s' page)" for s'
      by (simp add: poll_cycle_def fetch_and_reconcile_def get_transactions_history_def
          then_do_def Let_def except_Exception_def returns_def)
    then have dl: "delivered (poll_loop s' [ApiResult page]) = delivered (reconcile s' page)" for s'
      by simp
    have "raised (check_new_transactions s r0 (rs @ [ApiResult page])) = None"
      using sd by (simp add: check_new_transactions_def then_do_None poll_loop_raised)
    moreover have "delivered (check_new_transactions s r0 (rs @ [ApiResult page])) =
        delivered (poll_loop (state (seed s r0)) rs) @
        delivered (poll_loop (state (poll_loop (state (seed s r0)) rs)) [ApiResult page])"
      using sd
      by (simp add: check_new_transactions_def then_do_None poll_loop_raised poll_loop_append
          del: poll_loop.simps)
    ultimately show ?thesis by (simp only: dl)
  qed
  from 1 2 3 4 start_monitoring_only_failures[of sc s] start_monitoring_polls[of s sc]
    websocket_monitor_counts[of s as]
  show ?thesis by blast
qed

text \<open>
  C8 where the baseline fetch of the polling method fails. After three failed connects
  the run enters \<^verbatim>\<open>check_new_transactions\<close>, whose baseline of lines 95-101 is outside
  every \<^verbatim>\<open>try\<close>. When the response to the baseline fetch decodes to something other than
  an object, or the first record holds no dictionary under \<^verbatim>\<open>transaction_id\<close>,
  \<^verbatim>\<open>AttributeError\<close> leaves \<^verbatim>\<open>start_monitoring\<close>: the program ends, the polling loop is
  never entered, and the page that the first cycle would have fetched is not
  delivered. The same response inside the loop is survived, and the page after it is
  delivered.
\<close>

theorem baseline_failure_ends_the_run:
  "main \<lparr>first_fetch = ApiResult [],
      attempts = [ConnectFailed, ConnectFailed, ConnectFailed],
      baseline_fetch = Raises AttributeError,
      poll_fetches = [ApiResult [mk_tx ''a'' ''100'']]\<rparr> =
     \<lparr>state = init, delivered = [], raised = Some AttributeError\<rparr> \<and>
   main \<lparr>first_fetch = ApiResult [],
      attempts = [ConnectFailed, ConnectFailed, ConnectFailed],
      baseline_fetch = ApiResult [\<lparr>transaction_id = TidBad, displayable = True\<rparr>],
      poll_fetches = [ApiResult [mk_tx ''a'' ''100'']]\<rparr> =
     \<lparr>state = init, delivered = [], raised = Some AttributeError\<rparr> \<and>
   delivered (poll_loop init [Raises AttributeError, ApiResult [mk_tx ''a'' ''100'']]) =
     [mk_tx ''a'' ''100''] \<and>
   raised (poll_loop init [Raises AttributeError, ApiResult [mk_tx ''a'' ''100'']]) = None"
  by (simp add: eval_defs)

subsection \<open>The seen-set\<close>

lemma reconcile_processed_hashes:
  "processed_hashes (state (reconcile s page)) = processed_hashes (fst (classify s page))"
  by (cases s page rule: reconcile_cases) (simp_all add: deliver_hashes)

lemma reconcile_init_hashes:
  assumes wf: "\<forall>t\<in>set page. well_formed t"
  shows "processed_hashes (state (reconcile init page)) = hash_of ` set page"
proof -
  have ok: "wm_ok init" by (simp add: wm_ok_def init_def)
  from classify_total[OF wf ok] obtain s1 new where c: "classify init page = (s1, Inr new)"
    by blast
  from classify_new[OF c] have P: "processed_hashes s1 = hash_of ` set new"
    and sub: "set new \<subseteq> set page"
    by (auto simp: init_def)
  have "hash_of t \<in> hash_of ` set new" if "t \<in> set page" for t
  proof -
    from that wf have "truthy (hash_of t)" by (simp add: well_formed_def)
    moreover have "hash_of t \<notin> processed_hashes init" "above init t"
      by (simp_all add: init_def above_def)
    ultimately show ?thesis using classify_complete[OF c that] by blast
  qed
  with sub have "hash_of ` set new = hash_of ` set page" by blast
  with P c show ?thesis by (simp add: reconcile_processed_hashes)
qed

text \<open>The numbered page has \<open>n\<close> well-formed records with \<open>n\<close> different hashes.\<close>

lemma numbered_page_props:
  "(\<forall>t\<in>set (numbered_page n). well_formed t) \<and> distinct (map hash_of (numbered_page n)) \<and>
   length (numbered_page n) = n"
proof -
  have h: "hash_of (mk_tx x l) = JStr x" for x l
    by (simp add: hash_of_def get_hash_def mk_tx_def)
  have w: "well_formed (mk_tx (replicate (Suc i) CHR ''h'') ''1'')" for i
    by (simp add: eval_defs)
  have "inj_on (\<lambda>i. JStr (replicate (Suc i) CHR ''h'')) (set [0..<n])"
  proof (rule inj_onI)
    fix i j
    assume "JStr (replicate (Suc i) CHR ''h'') = JStr (replicate (Suc j) CHR ''h'')"
    then have "length (replicate (Suc i) CHR ''h'') = length (replicate (Suc j) CHR ''h'')"
      by simp
    then show "i = j" by simp
  qed
  then have "distinct (map (\<lambda>i. JStr (replicate (Suc i) CHR ''h'')) [0..<n])"
    by (simp add: distinct_map)
  then have "distinct (map hash_of (numbered_page n))"
    by (simp add: numbered_page_def comp_def h)
  moreover have "\<forall>t\<in>set (numbered_page n). well_formed t"
    using w by (auto simp: numbered_page_def)
  ultimately show ?thesis by (simp add: numbered_page_def)
qed

text \<open>
  C9, as the code has it. The seen-set is a plain set that only grows: a reconcile, the
  baseline, the polling loop and a whole run end with a seen-set that contains the one
  they started with. The hashes delivered in a run are pairwise different and all in
  the seen-set at its end, whatever their logical times. After a baseline that
  returns, the seen-set is the one from before together with every non-empty hash of
  the baseline page. A fresh tracker that reconciles a page of well-formed records
  ends with exactly the hashes of the page in the seen-set, as many as the page has
  records when their hashes differ; and for every \<open>n\<close> there is such a page after
  which the seen-set has \<open>n\<close> elements: there is no cap.
\<close>

theorem seen_set_only_grows:
  "processed_hashes s \<subseteq> processed_hashes (state (reconcile s page)) \<and>
   processed_hashes s \<subseteq> processed_hashes (state (seed s r)) \<and>
   processed_hashes s \<subseteq> processed_hashes (state (poll_loop s rs)) \<and>
   processed_hashes s \<subseteq> processed_hashes (state (start_monitoring s sc)) \<and>
   hash_of ` set (delivered (start_monitoring s sc)) \<subseteq>
     processed_hashes (state (start_monitoring s sc)) \<and>
   distinct (map hash_of (delivered (start_monitoring s sc))) \<and>
   (raised (seed s (ApiResult page)) = None \<longrightarrow>
      processed_hashes (state (seed s (ApiResult page))) =
        processed_hashes s \<union> {h. \<exists>t\<in>set page. hash_of t = h \<and> truthy h}) \<and>
   ((\<forall>t\<in>set page. well_formed t) \<longrightarrow>
      processed_hashes (state (reconcile init page)) = hash_of ` set page) \<and>
   ((\<forall>t\<in>set page. well_formed t) \<and> distinct (map hash_of page) \<longrightarrow>
      card (processed_hashes (state (reconcile init page))) = length page) \<and>
   (\<forall>t\<in>set (numbered_page n). well_formed t) \<and>
   length (numbered_page n) = n \<and>
   card (processed_hashes (state (reconcile init (numbered_page n)))) = n"
proof -
  have cd: "card (processed_hashes (state (reconcile init p))) = length p"
    if wf: "\<forall>t\<in>set p. well_formed t" and d: "distinct (map hash_of p)" for p
  proof -
    have "card (hash_of ` set p) = card (set (map hash_of p))" by simp
    also have "\<dots> = length (map hash_of p)" using d by (rule distinct_card)
    finally show ?thesis by (simp add: reconcile_init_hashes[OF wf])
  qed
  have np: "card (processed_hashes (state (reconcile init (numbered_page n)))) = n"
    using cd[of "numbered_page n"] numbered_page_props[of n] by simp
  have sm: "hash_of ` set (delivered (start_monitoring s sc)) \<subseteq>
      processed_hashes (state (start_monitoring s sc))"
    "processed_hashes s \<subseteq> processed_hashes (state (start_monitoring s sc))"
    "distinct (map hash_of (delivered (start_monitoring s sc)))"
    using fresh_start_monitoring[of s sc] unfolding fresh_def by blast+
  have pl: "processed_hashes s \<subseteq> processed_hashes (state (poll_loop s rs))"
    using fresh_poll_loop[of s rs] by (simp add: fresh_def)
  have sd: "processed_hashes s \<subseteq> processed_hashes (state (seed s r))"
    using fresh_seed[of s r] by (simp add: fresh_def)
  have bl: "raised (seed s (ApiResult page)) = None \<longrightarrow>
      processed_hashes (state (seed s (ApiResult page))) =
        processed_hashes s \<union> {h. \<exists>t\<in>set page. hash_of t = h \<and> truthy h}"
    using seed_suppresses_backlog[of s page] by blast
  have ri: "(\<forall>t\<in>set page. well_formed t) \<longrightarrow>
      processed_hashes (state (reconcile init page)) = hash_of ` set page"
    using reconcile_init_hashes[of page] by blast
  have cp: "(\<forall>t\<in>set page. well_formed t) \<and> distinct (map hash_of page) \<longrightarrow>
      card (processed_hashes (state (reconcile init page))) = length page"
    using cd[of page] by blast
  have nw: "\<forall>t\<in>set (numbered_page n). well_formed t" "length (numbered_page n) = n"
    using numbered_page_props[of n] by simp_all
  show ?thesis
    using reconcile_mono[of s page] sd pl sm bl ri cp nw np by (intro conjI)
qed

lemma example_baseline_hashes:
  "seed \<lparr>last_lt = JStr ''120'', processed_hashes = {JStr ''x''}\<rparr>
     (ApiResult [mk_tx ''y'' ''100'',
        \<lparr>transaction_id = TidObj (Some (JStr '''')) (Some (JStr ''99'')), displayable = True\<rparr>]) =
   \<lparr>state = \<lparr>last_lt = JStr ''100'', processed_hashes = {JStr ''y'', JStr ''x''}\<rparr>,
    delivered = [], raised = None\<rparr>"
  by (simp add: eval_defs)

theorem seen_set_only_grows_witness:
  "list_all well_formed [mk_tx ''a'' ''1'', mk_tx ''b'' ''1000000''] \<and>
   distinct (map hash_of [mk_tx ''a'' ''1'', mk_tx ''b'' ''1000000'']) \<and>
   processed_hashes (state (reconcile init [mk_tx ''a'' ''1'', mk_tx ''b'' ''1000000''])) =
     {JStr ''a'', JStr ''b''} \<and>
   card (processed_hashes (state (reconcile init [mk_tx ''a'' ''1'', mk_tx ''b'' ''1000000'']))) = 2 \<and>
   raised (seed \<lparr>last_lt = JStr ''120'', processed_hashes = {JStr ''x''}\<rparr>
     (ApiResult [mk_tx ''y'' ''100'',
        \<lparr>transaction_id = TidObj (Some (JStr '''')) (Some (JStr ''99'')), displayable = True\<rparr>])) = None \<and>
   processed_hashes (state (seed \<lparr>last_lt = JStr ''120'', processed_hashes = {JStr ''x''}\<rparr>
     (ApiResult [mk_tx ''y'' ''100'',
        \<lparr>transaction_id = TidObj (Some (JStr '''')) (Some (JStr ''99'')), displayable = True\<rparr>]))) =
     {JStr ''y'', JStr ''x''} \<and>
   list_all well_formed (numbered_page 2) \<and>
   card (processed_hashes (state (reconcile init (numbered_page 2)))) = 2"
proof -
  let ?p = "[mk_tx ''a'' ''1'', mk_tx ''b'' ''1000000'']"
  let ?s = "\<lparr>last_lt = JStr ''120'', processed_hashes = {JStr ''x''}\<rparr>"
  let ?q = "[mk_tx ''y'' ''100'',
        \<lparr>transaction_id = TidObj (Some (JStr '''')) (Some (JStr ''99'')), displayable = True\<rparr>]"
  have wf: "\<forall>t\<in>set ?p. well_formed t" by (simp add: eval_defs)
  have d: "distinct (map hash_of ?p)" by (simp add: eval_defs)
  have h: "hash_of ` set ?p = {JStr ''a'', JStr ''b''}" by (simp add: eval_defs)
  have sr: "raised (seed ?s (ApiResult ?q)) = None"
    by (subst example_baseline_hashes) simp
  have hq: "processed_hashes ?s \<union> {h. \<exists>t\<in>set ?q. hash_of t = h \<and> truthy h} = {JStr ''y'', JStr ''x''}"
    by (auto simp: eval_defs)
  from seen_set_only_grows[of ?s ?q RequestException "[]" example_script 0] sr
  have "processed_hashes (state (seed ?s (ApiResult ?q))) =
      processed_hashes ?s \<union> {h. \<exists>t\<in>set ?q. hash_of t = h \<and> truthy h}"
    by blast
  with hq have sq: "processed_hashes (state (seed ?s (ApiResult ?q))) = {JStr ''y'', JStr ''x''}"
    by (simp only:)
  from seen_set_only_grows[of init ?p RequestException "[]" example_script 2] wf d
  have eq: "processed_hashes (state (reconcile init ?p)) = hash_of ` set ?p"
    and c: "card (processed_hashes (state (reconcile init ?p))) = length ?p"
    and n2: "\<forall>t\<in>set (numbered_page 2). well_formed t"
    and c3: "card (processed_hashes (state (reconcile init (numbered_page 2)))) = 2"
    by blast+
  from n2 have n2': "list_all well_formed (numbered_page 2)" by (simp only: list_all_iff)
  from eq h have e: "processed_hashes (state (reconcile init ?p)) = {JStr ''a'', JStr ''b''}"
    by (simp only:)
  from c have c2: "card (processed_hashes (state (reconcile init ?p))) = 2" by simp
  have wf': "list_all well_formed ?p" using wf by (simp only: list_all_iff)
  show ?thesis using wf' d e c2 sr sq n2' c3 by (intro conjI)
qed

text \<open>
  C9 as stated fails: after two polling cycles the seen-set still holds the hash of the
  record of logical time 1, while the watermark is 1000000.
\<close>

theorem seen_set_not_capped:
  "state (poll_loop init [ApiResult [mk_tx ''a'' ''1''], ApiResult [mk_tx ''b'' ''1000000'']]) =
     \<lparr>last_lt = JStr ''1000000'', processed_hashes = {JStr ''b'', JStr ''a''}\<rparr>"
  by (simp add: eval_defs)

subsection \<open>Records without a hash\<close>

lemma get_hash_get_lt: "get_hash t = Inr h \<Longrightarrow> \<exists>l. get_lt t = Inr l"
  by (auto simp: get_hash_def get_lt_def split: tid.splits)

lemma classify_hashless:
  assumes "get_hash t = Inr h" "\<not> truthy h"
  shows "classify s (pre @ t # post) = classify s (pre @ post)"
proof (induction pre arbitrary: s)
  case Nil
  from get_hash_get_lt[OF assms(1)] obtain l where "get_lt t = Inr l" by blast
  with assms show ?case by (simp add: is_new_def)
next
  case (Cons u us)
  show ?case by (simp add: Cons.IH split: sum.splits)
qed

text \<open>
  C10. Every record a reconcile delivers has a non-empty hash. A record whose hash is
  absent, \<^verbatim>\<open>null\<close> or empty has no effect on a reconcile: with the record anywhere in the
  page, the reconcile, \<^verbatim>\<open>check_single_update\<close> and a polling cycle deliver the same records
  and end in the same state as on the page without it, whatever its logical time. A
  page that consists of one record without non-empty hash delivers nothing and leaves
  the tracker as it was.
\<close>

theorem hashless_record_ignored:
  "(\<forall>u\<in>set (delivered (reconcile s page)). truthy (hash_of u)) \<and>
   (get_hash t = Inr h \<and> \<not> truthy h \<longrightarrow>
      reconcile s (pre @ t # post) = reconcile s (pre @ post) \<and>
      check_single_update s (ApiResult (pre @ t # post)) =
        check_single_update s (ApiResult (pre @ post)) \<and>
      poll_cycle s (ApiResult (pre @ t # post)) = poll_cycle s (ApiResult (pre @ post))) \<and>
   (\<not> truthy (hash_of t) \<longrightarrow> delivered (reconcile s [t]) = [] \<and> state (reconcile s [t]) = s)"
proof -
  have 1: "\<forall>u\<in>set (delivered (reconcile s page)). truthy (hash_of u)"
    using reconcile_delivered[of s page] by blast
  have 2: "reconcile s (pre @ t # post) = reconcile s (pre @ post) \<and>
      check_single_update s (ApiResult (pre @ t # post)) =
        check_single_update s (ApiResult (pre @ post)) \<and>
      poll_cycle s (ApiResult (pre @ t # post)) = poll_cycle s (ApiResult (pre @ post))"
    if "get_hash t = Inr h" "\<not> truthy h"
  proof -
    from classify_hashless[OF that] have "reconcile s (pre @ t # post) = reconcile s (pre @ post)"
      by (simp add: reconcile_def)
    then show ?thesis
      by (simp add: check_single_update_def poll_cycle_def fetch_and_reconcile_def
          get_transactions_history_def)
  qed
  have 3: "delivered (reconcile s [t]) = [] \<and> state (reconcile s [t]) = s"
    if "\<not> truthy (hash_of t)"
    using reconcile_none[of "[t]" s] that by simp
  from 1 2 3 show ?thesis by blast
qed

lemma example_hashless:
  "reconcile \<lparr>last_lt = JStr ''100'', processed_hashes = {}\<rparr>
     [mk_tx ''b'' ''102'',
      \<lparr>transaction_id = TidObj (Some (JStr '''')) (Some (JStr ''999'')), displayable = True\<rparr>,
      mk_tx ''a'' ''101''] =
   \<lparr>state = \<lparr>last_lt = JStr ''102'', processed_hashes = {JStr ''a'', JStr ''b''}\<rparr>,
    delivered = [mk_tx ''a'' ''101'', mk_tx ''b'' ''102''], raised = None\<rparr>"
  by (simp add: eval_defs)

theorem hashless_record_ignored_witness:
  "get_hash \<lparr>transaction_id = TidObj (Some (JStr '''')) (Some (JStr ''999'')), displayable = True\<rparr> =
     Inr (JStr '''') \<and>
   \<not> truthy (JStr '''') \<and>
   \<not> truthy (hash_of
     \<lparr>transaction_id = TidObj (Some (JStr '''')) (Some (JStr ''999'')), displayable = True\<rparr>) \<and>
   reconcile \<lparr>last_lt = JStr ''100'', processed_hashes = {}\<rparr>
     [mk_tx ''b'' ''102'',
      \<lparr>transaction_id = TidObj (Some (JStr '''')) (Some (JStr ''999'')), displayable = True\<rparr>,
      mk_tx ''a'' ''101''] =
   reconcile \<lparr>last_lt = JStr ''100'', processed_hashes = {}\<rparr> [mk_tx ''b'' ''102'', mk_tx ''a'' ''101''] \<and>
   delivered (reconcile \<lparr>last_lt = JStr ''100'', processed_hashes = {}\<rparr>
     [mk_tx ''b'' ''102'',
      \<lparr>transaction_id = TidObj (Some (JStr '''')) (Some (JStr ''999'')), displayable = True\<rparr>,
      mk_tx ''a'' ''101'']) = [mk_tx ''a'' ''101'', mk_tx ''b'' ''102''] \<and>
   state (reconcile \<lparr>last_lt = JStr ''100'', processed_hashes = {}\<rparr>
     [\<lparr>transaction_id = TidObj (Some (JStr '''')) (Some (JStr ''999'')), displayable = True\<rparr>]) =
     \<lparr>last_lt = JStr ''100'', processed_hashes = {}\<rparr>"
proof -
  let ?t = "\<lparr>transaction_id = TidObj (Some (JStr '''')) (Some (JStr ''999'')), displayable = True\<rparr>"
  let ?s = "\<lparr>last_lt = JStr ''100'', processed_hashes = {}\<rparr>"
  have g: "get_hash ?t = Inr (JStr '''')" by (simp add: get_hash_def)
  have n: "\<not> truthy (JStr '''')" by simp
  have n': "\<not> truthy (hash_of ?t)" by (simp add: hash_of_def get_hash_def)
  from hashless_record_ignored[of ?s "[]" ?t "JStr ''''" "[mk_tx ''b'' ''102'']" "[mk_tx ''a'' ''101'']"]
    g n n'
  have a: "reconcile ?s ([mk_tx ''b'' ''102''] @ ?t # [mk_tx ''a'' ''101'']) =
      reconcile ?s ([mk_tx ''b'' ''102''] @ [mk_tx ''a'' ''101''])"
    and b: "state (reconcile ?s [?t]) = ?s"
    by blast+
  from a have a': "reconcile ?s [mk_tx ''b'' ''102'', ?t, mk_tx ''a'' ''101''] =
      reconcile ?s [mk_tx ''b'' ''102'', mk_tx ''a'' ''101'']" by simp
  have d: "delivered (reconcile ?s [mk_tx ''b'' ''102'', ?t, mk_tx ''a'' ''101'']) =
      [mk_tx ''a'' ''101'', mk_tx ''b'' ''102'']"
    by (subst example_hashless) simp
  show ?thesis using g n n' a' d b by (intro conjI)
qed

end
